theory Spec2Isabelle
  imports
    Main
    "HOL-Library.Word"
    "HOL-Library.Multiset"
    "HOL-Library.Monad_Syntax"
    "HOL-Library.Char_ord"
    "HOL-Library.List_Lexorder"
begin

unbundle bit_operations_syntax

section \<open>The heap of queue.c\<close>

text \<open>
  Addresses are 64-bit machine words; \<open>0\<close> is the C \<open>NULL\<close>. An element
  (\<open>element_t\<close>: a \<open>char *value\<close> and an embedded \<open>struct list_head list\<close>) is
  identified with the address of its embedded \<open>list\<close> member, so \<open>list_entry\<close>
  (\<open>container_of\<close>) is the identity on addresses. The heap holds the \<open>next\<close> and
  \<open>prev\<close> fields of every \<open>list_head\<close>, the \<open>value\<close> pointer of every element, the
  bytes of every C string (without its terminator) and the set of allocated blocks.
  Reads are total functions: the theorems below are stated for well-formed queues,
  whose nodes are never \<open>NULL\<close>.
\<close>

type_synonym addr = "64 word"

record heap =
  nxt :: "addr \<Rightarrow> addr"
  prv :: "addr \<Rightarrow> addr"
  e_value :: "addr \<Rightarrow> addr"
  str :: "addr \<Rightarrow> string"
  live :: "addr set"

subsection \<open>The primitives of list.h\<close>

text \<open>
  Modelled from the spec: list.h (the List Core: \<open>INIT_LIST_HEAD\<close>, \<open>list_add\<close>,
  \<open>list_add_tail\<close>, \<open>list_del\<close>, \<open>list_move\<close>, \<open>list_empty\<close>, \<open>list_is_singular\<close> and
  the iteration macros) is not among the sources. The spec gives: init sets
  \<open>next = prev = self\<close>; insert splices a node next to an anchor updating four
  pointers; unlink rewrites the neighbours' \<open>next\<close>/\<open>prev\<close> to point to each other and
  leaves the node's own pointers alone (no caller reads them afterwards); move is
  unlink followed by insertion right after the sentinel; the two predicates look at
  the sentinel's immediate neighbours.
\<close>

definition INIT_LIST_HEAD :: "heap \<Rightarrow> addr \<Rightarrow> heap" where
  "INIT_LIST_HEAD h q =
     (let h1 = h\<lparr>nxt := (nxt h)(q := q)\<rparr>
      in h1\<lparr>prv := (prv h1)(q := q)\<rparr>)"

definition list_add :: "heap \<Rightarrow> addr \<Rightarrow> addr \<Rightarrow> heap" where
  "list_add h node head =
     (let next = nxt h head;
          h1 = h\<lparr>prv := (prv h)(next := node)\<rparr>;
          h2 = h1\<lparr>nxt := (nxt h1)(node := next)\<rparr>;
          h3 = h2\<lparr>prv := (prv h2)(node := head)\<rparr>
      in h3\<lparr>nxt := (nxt h3)(head := node)\<rparr>)"

definition list_add_tail :: "heap \<Rightarrow> addr \<Rightarrow> addr \<Rightarrow> heap" where
  "list_add_tail h node head =
     (let prev = prv h head;
          h1 = h\<lparr>nxt := (nxt h)(prev := node)\<rparr>;
          h2 = h1\<lparr>nxt := (nxt h1)(node := head)\<rparr>;
          h3 = h2\<lparr>prv := (prv h2)(node := prev)\<rparr>
      in h3\<lparr>prv := (prv h3)(head := node)\<rparr>)"

definition list_del :: "heap \<Rightarrow> addr \<Rightarrow> heap" where
  "list_del h node =
     (let next = nxt h node;
          prev = prv h node;
          h1 = h\<lparr>prv := (prv h)(next := prev)\<rparr>
      in h1\<lparr>nxt := (nxt h1)(prev := next)\<rparr>)"

definition list_move :: "heap \<Rightarrow> addr \<Rightarrow> addr \<Rightarrow> heap" where
  "list_move h node head = list_add (list_del h node) node head"

definition list_empty :: "heap \<Rightarrow> addr \<Rightarrow> bool" where
  "list_empty h head = (nxt h head = head)"

definition list_is_singular :: "heap \<Rightarrow> addr \<Rightarrow> bool" where
  "list_is_singular h head = (\<not> list_empty h head \<and> prv h head = nxt h head)"

subsection \<open>String comparison and bounded copy\<close>

text \<open>
  \<open>strcmp\<close> compares two C strings byte by byte as unsigned characters; its sign is
  what the callers test. A string that ends is read as its terminator, the byte 0.
\<close>

fun strcmp :: "string \<Rightarrow> string \<Rightarrow> int" where
  "strcmp [] [] = 0"
| "strcmp [] (y # ys) = - int (of_char y)"
| "strcmp (x # xs) [] = int (of_char x)"
| "strcmp (x # xs) (y # ys) =
     (if x = y \<and> (of_char x :: nat) \<noteq> 0 then strcmp xs ys
      else int (of_char x) - int (of_char y))"

text \<open>
  The caller's buffer is the array of bytes that \<open>sp\<close> points to; the length of the
  list is the size of the array. A write past the end of the array is undefined
  behaviour: the call does not return (on a real run the process is killed inside the
  copy). \<open>Overrun b\<close> is that outcome, with the bytes \<open>b\<close> of the array as they were
  written before the copy left it; \<open>Returned r\<close> is a call that returns \<open>r\<close>.
\<close>

type_synonym buffer = "char list"

datatype 'a outcome = Returned 'a | Overrun buffer

text \<open>
  \<open>strncpy dst src n\<close> writes exactly \<open>n\<close> bytes at offsets \<open>0..n-1\<close> of the
  destination, in this order: the bytes of \<open>src\<close>, then zero bytes once \<open>src\<close> is
  exhausted. It stays inside the array only when \<open>n\<close> is at most its size.
\<close>

definition strncpy :: "buffer \<Rightarrow> string \<Rightarrow> nat \<Rightarrow> buffer outcome" where
  "strncpy dst src n =
     (let written = map (\<lambda>i. if i < n then (if i < length src then src ! i else CHR 0x00)
                              else dst ! i) [0..<length dst]
      in if n \<le> length dst then Returned written else Overrun written)"

text \<open>The string owned by the element at \<open>e\<close>: \<open>list_entry(e, element_t, list)->value\<close>.\<close>

definition elem_str :: "heap \<Rightarrow> addr \<Rightarrow> string" where
  "elem_str h e = str h (e_value h e)"

section \<open>The operations of queue.c\<close>

subsection \<open>Creation, insertion, removal, release\<close>

text \<open>
  \<open>malloc\<close> and \<open>strdup\<close> are outside the program: their results are parameters
  (\<open>0\<close> when the allocation fails, otherwise the address of the new block).
\<close>

definition q_new :: "heap \<Rightarrow> addr \<Rightarrow> heap \<times> addr" where
  "q_new h q =
     (if q \<noteq> 0 then (INIT_LIST_HEAD (h\<lparr>live := insert q (live h)\<rparr>) q, q)
      else (h, q))"

definition free :: "heap \<Rightarrow> addr \<Rightarrow> heap" where
  "free h p = (if p = 0 then h else h\<lparr>live := live h - {p}\<rparr>)"

definition strdup :: "heap \<Rightarrow> string \<Rightarrow> addr \<Rightarrow> heap" where
  "strdup h s v =
     (if v = 0 then h else h\<lparr>str := (str h)(v := s), live := insert v (live h)\<rparr>)"

definition q_insert_head :: "heap \<Rightarrow> addr \<Rightarrow> string \<Rightarrow> addr \<Rightarrow> addr \<Rightarrow> heap \<times> bool" where
  "q_insert_head h head s e v =
     (if head = 0 then (h, False)
      else if e = 0 then (h, False)
      else
        let h1 = h\<lparr>live := insert e (live h)\<rparr>;
            h2 = strdup h1 s v;
            h3 = h2\<lparr>e_value := (e_value h2)(e := v)\<rparr>
        in if e_value h3 e = 0 then (free h3 e, False)
           else (list_add h3 e head, True))"

definition q_insert_tail :: "heap \<Rightarrow> addr \<Rightarrow> string \<Rightarrow> addr \<Rightarrow> addr \<Rightarrow> heap \<times> bool" where
  "q_insert_tail h head s e v =
     (if head = 0 then (h, False)
      else if e = 0 then (h, False)
      else
        let h1 = h\<lparr>live := insert e (live h)\<rparr>;
            h2 = strdup h1 s v;
            h3 = h2\<lparr>e_value := (e_value h2)(e := v)\<rparr>
        in if e_value h3 e = 0 then (free h3 e, False)
           else (list_add_tail h3 e head, True))"

text \<open>
  The output buffer \<open>sp\<close> is \<open>None\<close> for a \<open>NULL\<close> pointer. \<open>bufsize\<close> is a
  \<open>size_t\<close>, so \<open>bufsize - 1\<close> wraps around at 0. \<open>copy_out\<close> is the two statements
  \<open>strncpy(sp, e->value, bufsize - 1); sp[bufsize - 1] = 0;\<close>. When the copy overruns
  the array, \<open>list_del\<close> is never reached and the removal has no result.
\<close>

definition copy_out :: "buffer \<Rightarrow> string \<Rightarrow> 64 word \<Rightarrow> buffer outcome" where
  "copy_out sp s bufsize =
     (case strncpy sp s (unat (bufsize - 1)) of
        Overrun b \<Rightarrow> Overrun b
      | Returned b1 \<Rightarrow>
          if unat (bufsize - 1) < length b1
          then Returned (b1[unat (bufsize - 1) := CHR 0x00])
          else Overrun b1)"

definition q_remove_head ::
  "heap \<Rightarrow> addr \<Rightarrow> buffer option \<Rightarrow> 64 word \<Rightarrow> (heap \<times> buffer option \<times> addr) outcome" where
  "q_remove_head h head sp bufsize =
     (if head = 0 \<or> list_empty h head then Returned (h, sp, 0)
      else
        let e = nxt h head
        in case sp of
             None \<Rightarrow> Returned (list_del h e, None, e)
           | Some b \<Rightarrow>
               (case copy_out b (elem_str h e) bufsize of
                  Overrun b' \<Rightarrow> Overrun b'
                | Returned b' \<Rightarrow> Returned (list_del h e, Some b', e)))"

definition q_remove_tail ::
  "heap \<Rightarrow> addr \<Rightarrow> buffer option \<Rightarrow> 64 word \<Rightarrow> (heap \<times> buffer option \<times> addr) outcome" where
  "q_remove_tail h head sp bufsize =
     (if head = 0 \<or> list_empty h head then Returned (h, sp, 0)
      else
        let e = prv h head
        in case sp of
             None \<Rightarrow> Returned (list_del h e, None, e)
           | Some b \<Rightarrow>
               (case copy_out b (elem_str h e) bufsize of
                  Overrun b' \<Rightarrow> Overrun b'
                | Returned b' \<Rightarrow> Returned (list_del h e, Some b', e)))"

text \<open>
  The caller's side of the copy: \<open>sp\<close> is \<open>NULL\<close>, or \<open>bufsize\<close> is not 0 and the
  array holds at least \<open>bufsize\<close> bytes.
\<close>

definition copy_fits :: "buffer option \<Rightarrow> 64 word \<Rightarrow> bool" where
  "copy_fits sp bufsize =
     (case sp of None \<Rightarrow> True | Some b \<Rightarrow> bufsize \<noteq> 0 \<and> unat bufsize \<le> length b)"

definition q_release_element :: "heap \<Rightarrow> addr \<Rightarrow> heap" where
  "q_release_element h e = free (free h (e_value h e)) e"

subsection \<open>Size\<close>

text \<open>
  \<open>list_for_each (node, head)\<close> is
  \<open>for (node = head->next; node != head; node = node->next)\<close>. The counter is a C
  \<open>int\<close>. A loop over the heap need not end on a malformed heap: the loops are partial
  functions and \<open>None\<close> is a run that does not return.
\<close>

partial_function (option) q_size_loop :: "heap \<Rightarrow> addr \<Rightarrow> addr \<Rightarrow> 32 word \<Rightarrow> 32 word option" where
  "q_size_loop h head node cnt =
     (if node \<noteq> head then q_size_loop h head (nxt h node) (cnt + 1)
      else Some cnt)"

definition q_size :: "heap \<Rightarrow> addr \<Rightarrow> 32 word option" where
  "q_size h head =
     (if head = 0 \<or> list_empty h head then Some 0
      else q_size_loop h head (nxt h head) 0)"

subsection \<open>Deleting the middle node\<close>

partial_function (option) q_delete_mid_loop :: "heap \<Rightarrow> addr \<Rightarrow> addr \<Rightarrow> addr \<Rightarrow> addr option" where
  "q_delete_mid_loop h head fast slow =
     (if fast \<noteq> head \<and> nxt h fast \<noteq> head
      then q_delete_mid_loop h head (nxt h (nxt h fast)) (nxt h slow)
      else Some slow)"

definition q_delete_mid :: "heap \<Rightarrow> addr \<Rightarrow> (heap \<times> bool) option" where
  "q_delete_mid h head =
     (if head = 0 \<or> list_empty h head then Some (h, False)
      else do {
        slow \<leftarrow> q_delete_mid_loop h head (nxt h head) (nxt h head);
        Some (q_release_element (list_del h slow) slow, True)
      })"

subsection \<open>Deleting duplicates\<close>

text \<open>
  \<open>list_for_each_entry_safe (node, safe, head, list)\<close> starts with
  \<open>node = head->next, safe = node->next\<close>, runs while \<open>node != head\<close> and steps with
  \<open>node = safe, safe = safe->next\<close>.
\<close>

partial_function (option) q_delete_dup_loop ::
  "heap \<Rightarrow> addr \<Rightarrow> addr \<Rightarrow> addr \<Rightarrow> bool \<Rightarrow> heap option" where
  "q_delete_dup_loop h head node safe dup =
     (if node \<noteq> head then
        (if nxt h node \<noteq> head \<and> strcmp (elem_str h node) (elem_str h (nxt h node)) = 0
         then let h' = q_release_element (list_del h node) node
              in q_delete_dup_loop h' head safe (nxt h' safe) True
         else if dup
         then let h' = q_release_element (list_del h node) node
              in q_delete_dup_loop h' head safe (nxt h' safe) False
         else q_delete_dup_loop h head safe (nxt h safe) dup)
      else Some h)"

definition q_delete_dup :: "heap \<Rightarrow> addr \<Rightarrow> (heap \<times> bool) option" where
  "q_delete_dup h head =
     (if head = 0 then Some (h, False)
      else if list_empty h head \<or> list_is_singular h head then Some (h, True)
      else do {
        h' \<leftarrow> q_delete_dup_loop h head (nxt h head) (nxt h (nxt h head)) False;
        Some (h', True)
      })"

subsection \<open>Swapping pairs and reversing\<close>

partial_function (option) q_swap_loop :: "heap \<Rightarrow> addr \<Rightarrow> addr \<Rightarrow> heap option" where
  "q_swap_loop h head node =
     (if node \<noteq> head \<and> nxt h node \<noteq> head then
        let tmp = nxt h node;
            h1 = list_del h tmp;
            h2 = list_add_tail h1 tmp node
        in q_swap_loop h2 head (nxt h2 node)
      else Some h)"

definition q_swap :: "heap \<Rightarrow> addr \<Rightarrow> heap option" where
  "q_swap h head =
     (if head = 0 \<or> list_empty h head \<or> list_is_singular h head then Some h
      else q_swap_loop h head (nxt h head))"

text \<open>
  \<open>list_for_each_safe (node, safe, head)\<close> is
  \<open>for (node = head->next, safe = node->next; node != head; node = safe, safe = node->next)\<close>.
\<close>

partial_function (option) q_reverse_loop :: "heap \<Rightarrow> addr \<Rightarrow> addr \<Rightarrow> addr \<Rightarrow> heap option" where
  "q_reverse_loop h head node safe =
     (if node \<noteq> head then
        let h' = list_move h node head
        in q_reverse_loop h' head safe (nxt h' safe)
      else Some h)"

definition q_reverse :: "heap \<Rightarrow> addr \<Rightarrow> heap option" where
  "q_reverse h head =
     (if head = 0 \<or> list_empty h head \<or> list_is_singular h head then Some h
      else q_reverse_loop h head (nxt h head) (nxt h (nxt h head)))"

subsection \<open>Merge sort\<close>

text \<open>
  The source holds two textually identical copies of \<open>mergeTwoLists\<close> and
  \<open>mergesort\<close>, left between the markers of an unresolved merge; they are modelled
  once. In \<open>mergeTwoLists\<close>, \<open>ptr\<close> points either to the local variable \<open>head\<close> or to the
  \<open>next\<close> field of a node, and \<open>node\<close> points to one of the locals \<open>l1\<close>, \<open>l2\<close>.
\<close>

datatype loc = Local_head | Next_of addr

datatype lref = Ref_l1 | Ref_l2

text \<open>\<open>*ptr = v\<close> on the pair of the heap and the local \<open>head\<close>.\<close>

definition store :: "loc \<Rightarrow> addr \<Rightarrow> heap \<times> addr \<Rightarrow> heap \<times> addr" where
  "store ptr v s =
     (case ptr of
        Local_head \<Rightarrow> (fst s, v)
      | Next_of a \<Rightarrow> ((fst s)\<lparr>nxt := (nxt (fst s))(a := v)\<rparr>, snd s))"

partial_function (option) mergeTwoLists_loop ::
  "heap \<Rightarrow> addr \<Rightarrow> addr \<Rightarrow> addr \<Rightarrow> loc \<Rightarrow> (heap \<times> addr \<times> addr \<times> addr \<times> loc) option" where
  "mergeTwoLists_loop h l1 l2 head ptr =
     (if l1 \<noteq> 0 \<and> l2 \<noteq> 0 then
        let node = (if strcmp (elem_str h l1) (elem_str h l2) < 0 then Ref_l1 else Ref_l2);
            n = (case node of Ref_l1 \<Rightarrow> l1 | Ref_l2 \<Rightarrow> l2);
            s = store ptr n (h, head);
            h' = fst s;
            head' = snd s;
            ptr' = Next_of n;
            l1' = (case node of Ref_l1 \<Rightarrow> nxt h' l1 | Ref_l2 \<Rightarrow> l1);
            l2' = (case node of Ref_l1 \<Rightarrow> l2 | Ref_l2 \<Rightarrow> nxt h' l2)
        in mergeTwoLists_loop h' l1' l2' head' ptr'
      else Some (h, l1, l2, head, ptr))"

definition mergeTwoLists :: "heap \<Rightarrow> addr \<Rightarrow> addr \<Rightarrow> (heap \<times> addr) option" where
  "mergeTwoLists h l1 l2 =
     do {
       (h', l1', l2', head, ptr) \<leftarrow> mergeTwoLists_loop h l1 l2 0 Local_head;
       Some (store ptr (l1' OR l2') (h', head))
     }"

partial_function (option) mergesort_loop :: "heap \<Rightarrow> addr \<Rightarrow> addr \<Rightarrow> (addr \<times> addr) option" where
  "mergesort_loop h fast slow =
     (if fast = 0 \<or> nxt h fast = 0 then Some (fast, slow)
      else mergesort_loop h (nxt h (nxt h fast)) (nxt h slow))"

partial_function (option) mergesort :: "heap \<Rightarrow> addr \<Rightarrow> (heap \<times> addr) option" where
  "mergesort h head =
     (if nxt h head = 0 then Some (h, head)
      else do {
        (fast, slow) \<leftarrow> mergesort_loop h head head;
        let mid = slow;
        let h1 = h\<lparr>nxt := (nxt h)(prv h slow := 0)\<rparr>;
        (h2, l1) \<leftarrow> mergesort h1 head;
        (h3, l2) \<leftarrow> mergesort h2 mid;
        mergeTwoLists h3 l1 l2
      })"

partial_function (option) q_sort_loop :: "heap \<Rightarrow> addr \<Rightarrow> (heap \<times> addr) option" where
  "q_sort_loop h tmp =
     (if nxt h tmp \<noteq> 0 then
        let h' = h\<lparr>prv := (prv h)(nxt h tmp := tmp)\<rparr>
        in q_sort_loop h' (nxt h' tmp)
      else Some (h, tmp))"

definition q_sort :: "heap \<Rightarrow> addr \<Rightarrow> heap option" where
  "q_sort h head =
     (if head = 0 \<or> list_empty h head \<or> list_is_singular h head then Some h
      else do {
        let node = nxt h head;
        let h1 = h\<lparr>nxt := (nxt h)(prv h head := 0)\<rparr>;
        let h2 = h1\<lparr>nxt := (nxt h1)(head := 0)\<rparr>;
        (h3, node') \<leftarrow> mergesort h2 node;
        let tmp = head;
        let h4 = h3\<lparr>nxt := (nxt h3)(tmp := node')\<rparr>;
        (h5, tmp') \<leftarrow> q_sort_loop h4 tmp;
        let h6 = h5\<lparr>nxt := (nxt h5)(tmp' := head)\<rparr>;
        Some (h6\<lparr>prv := (prv h6)(head := tmp')\<rparr>)
      })"

section \<open>Well-formed queues\<close>

text \<open>
  \<open>linked f zs\<close>: every element of \<open>zs\<close> but the last is mapped by \<open>f\<close> to its
  successor in \<open>zs\<close>. A queue with sentinel \<open>head\<close> and element nodes \<open>xs\<close> (first
  to last) is a ring: following \<open>next\<close> from the sentinel visits \<open>xs\<close> and comes back
  to the sentinel, following \<open>prev\<close> visits \<open>xs\<close> backwards; no node is \<open>NULL\<close> and
  no node occurs twice.
\<close>

fun linked :: "('a \<Rightarrow> 'a) \<Rightarrow> 'a list \<Rightarrow> bool" where
  "linked f [] = True"
| "linked f [x] = True"
| "linked f (x # y # zs) = (f x = y \<and> linked f (y # zs))"

definition queue :: "heap \<Rightarrow> addr \<Rightarrow> addr list \<Rightarrow> bool" where
  "queue h head xs =
     (head \<noteq> 0 \<and> 0 \<notin> set xs \<and> distinct (head # xs) \<and>
      linked (nxt h) (head # xs @ [head]) \<and> linked (prv h) (head # rev xs @ [head]))"


text \<open>
  Reading a queue off the heap, as a caller would: walk \<open>next\<close> from the first
  element until the sentinel comes back, collecting the nodes and their strings.
\<close>

partial_function (option) q_walk :: "heap \<Rightarrow> addr \<Rightarrow> addr \<Rightarrow> addr list option" where
  "q_walk h head node =
     (if node = head then Some []
      else do { ns \<leftarrow> q_walk h head (nxt h node); Some (node # ns) })"

definition q_nodes :: "heap \<Rightarrow> addr \<Rightarrow> addr list option" where
  "q_nodes h head = q_walk h head (nxt h head)"

definition q_strings :: "heap \<Rightarrow> addr \<Rightarrow> string list option" where
  "q_strings h head = map_option (map (elem_str h)) (q_nodes h head)"

text \<open>The strings of the queue, first to last, after \<open>q_delete_mid\<close>.\<close>

definition strings_after_delete_mid :: "heap \<Rightarrow> addr \<Rightarrow> string list option" where
  "strings_after_delete_mid h head =
     do { (h', r) \<leftarrow> q_delete_mid h head; q_strings h' head }"

section \<open>Concrete heaps\<close>

text \<open>The queue \<open>["a","b","c","d","e","f"]\<close>: sentinel at address 1, nodes at 2..7.\<close>

definition heap6 :: heap where
  "heap6 =
     \<lparr>nxt = (\<lambda>_. 0)(1 := 2, 2 := 3, 3 := 4, 4 := 5, 5 := 6, 6 := 7, 7 := 1),
      prv = (\<lambda>_. 0)(1 := 7, 2 := 1, 3 := 2, 4 := 3, 5 := 4, 6 := 5, 7 := 6),
      e_value = (\<lambda>_. 0)(2 := 12, 3 := 13, 4 := 14, 5 := 15, 6 := 16, 7 := 17),
      str = (\<lambda>_. [])(12 := ''a'', 13 := ''b'', 14 := ''c'', 15 := ''d'', 16 := ''e'', 17 := ''f''),
      live = {1, 2, 3, 4, 5, 6, 7, 12, 13, 14, 15, 16, 17}\<rparr>"

text \<open>What \<open>q_swap\<close> computes on the list of nodes: each adjacent pair is exchanged.\<close>

fun swap_pairs :: "'a list \<Rightarrow> 'a list" where
  "swap_pairs (x # y # zs) = y # x # swap_pairs zs"
| "swap_pairs [x] = [x]"
| "swap_pairs [] = []"

text \<open>The queue \<open>["a"]\<close> and the queue \<open>["b","a","b"]\<close>.\<close>

definition heap1 :: heap where
  "heap1 =
     \<lparr>nxt = (\<lambda>_. 0)(1 := 2, 2 := 1),
      prv = (\<lambda>_. 0)(1 := 2, 2 := 1),
      e_value = (\<lambda>_. 0)(2 := 12),
      str = (\<lambda>_. [])(12 := ''a''),
      live = {1, 2, 12}\<rparr>"

definition heap3 :: heap where
  "heap3 =
     \<lparr>nxt = (\<lambda>_. 0)(1 := 2, 2 := 3, 3 := 4, 4 := 1),
      prv = (\<lambda>_. 0)(1 := 4, 2 := 1, 3 := 2, 4 := 3),
      e_value = (\<lambda>_. 0)(2 := 12, 3 := 13, 4 := 14),
      str = (\<lambda>_. [])(12 := ''b'', 13 := ''a'', 14 := ''b''),
      live = {1, 2, 3, 4, 12, 13, 14}\<rparr>"

text \<open>The queue as a caller can observe it is unchanged between two heaps.\<close>

definition same_queue :: "heap \<Rightarrow> heap \<Rightarrow> bool" where
  "same_queue h h' =
     (nxt h' = nxt h \<and> prv h' = prv h \<and> str h' = str h \<and> live h' = live h \<and>
      (\<forall>a \<in> live h. e_value h' a = e_value h a))"

text \<open>
  The order that \<open>strcmp\<close> induces: a C string is compared as the list of its bytes up
  to the first zero byte, lexicographically.
\<close>

definition key :: "string \<Rightarrow> nat list" where
  "key s = map of_char (takeWhile (\<lambda>c. (of_char c :: nat) \<noteq> 0) s)"

text \<open>
  The pass of \<open>q_delete_dup\<close> over the list of nodes still to visit: \<open>s\<close> gives the
  string of a node, \<open>dup\<close> is the flag of the loop, the result is the nodes kept.
\<close>

fun dup_pass :: "('a \<Rightarrow> string) \<Rightarrow> bool \<Rightarrow> 'a list \<Rightarrow> 'a list" where
  "dup_pass s dup [] = []"
| "dup_pass s dup [x] = (if dup then [] else [x])"
| "dup_pass s dup (x # y # zs) =
     (if strcmp (s x) (s y) = 0 then dup_pass s True (y # zs)
      else if dup then dup_pass s False (y # zs)
      else x # dup_pass s False (y # zs))"

text \<open>
  The words of the claims about \<open>q_delete_dup\<close>: the element at index \<open>i\<close> has no equal
  immediate neighbour; the nodes at such indices, in order; a list of strings is
  ascending; the string at index \<open>i\<close> occurs only there.
\<close>

definition no_equal_neighbour :: "string list \<Rightarrow> nat \<Rightarrow> bool" where
  "no_equal_neighbour ss i =
     (\<not> (0 < i \<and> strcmp (ss ! (i - 1)) (ss ! i) = 0) \<and>
      \<not> (Suc i < length ss \<and> strcmp (ss ! i) (ss ! Suc i) = 0))"

definition survivors :: "('a \<Rightarrow> string) \<Rightarrow> 'a list \<Rightarrow> 'a list" where
  "survivors s xs = map (\<lambda>i. xs ! i) (filter (no_equal_neighbour (map s xs)) [0..<length xs])"

definition ascending :: "string list \<Rightarrow> bool" where
  "ascending ss = sorted_wrt (\<lambda>a b. strcmp a b \<le> 0) ss"

definition strictly_ascending :: "string list \<Rightarrow> bool" where
  "strictly_ascending ss = sorted_wrt (\<lambda>a b. strcmp a b < 0) ss"

definition unique_at :: "string list \<Rightarrow> nat \<Rightarrow> bool" where
  "unique_at ss i = (\<forall>j < length ss. j \<noteq> i \<longrightarrow> strcmp (ss ! j) (ss ! i) \<noteq> 0)"

definition keep_at :: "bool \<Rightarrow> string list \<Rightarrow> nat \<Rightarrow> bool" where
  "keep_at dup ss i =
     (\<not> (if i = 0 then dup else strcmp (ss ! (i - 1)) (ss ! i) = 0) \<and>
      \<not> (Suc i < length ss \<and> strcmp (ss ! i) (ss ! Suc i) = 0))"

text \<open>The queues \<open>["a","b","b","b","c"]\<close>, \<open>["a","b","c"]\<close> and \<open>["a","b","b","a"]\<close>.\<close>

definition heap_abbbc :: heap where
  "heap_abbbc =
     \<lparr>nxt = (\<lambda>_. 0)(1 := 2, 2 := 3, 3 := 4, 4 := 5, 5 := 6, 6 := 1),
      prv = (\<lambda>_. 0)(1 := 6, 2 := 1, 3 := 2, 4 := 3, 5 := 4, 6 := 5),
      e_value = (\<lambda>_. 0)(2 := 12, 3 := 13, 4 := 14, 5 := 15, 6 := 16),
      str = (\<lambda>_. [])(12 := ''a'', 13 := ''b'', 14 := ''b'', 15 := ''b'', 16 := ''c''),
      live = {1, 2, 3, 4, 5, 6, 12, 13, 14, 15, 16}\<rparr>"

definition heap_abc :: heap where
  "heap_abc =
     \<lparr>nxt = (\<lambda>_. 0)(1 := 2, 2 := 3, 3 := 4, 4 := 1),
      prv = (\<lambda>_. 0)(1 := 4, 2 := 1, 3 := 2, 4 := 3),
      e_value = (\<lambda>_. 0)(2 := 12, 3 := 13, 4 := 14),
      str = (\<lambda>_. [])(12 := ''a'', 13 := ''b'', 14 := ''c''),
      live = {1, 2, 3, 4, 12, 13, 14}\<rparr>"

definition heap_abba :: heap where
  "heap_abba =
     \<lparr>nxt = (\<lambda>_. 0)(1 := 2, 2 := 3, 3 := 4, 4 := 5, 5 := 1),
      prv = (\<lambda>_. 0)(1 := 5, 2 := 1, 3 := 2, 4 := 3, 5 := 4),
      e_value = (\<lambda>_. 0)(2 := 12, 3 := 13, 4 := 14, 5 := 15),
      str = (\<lambda>_. [])(12 := ''a'', 13 := ''b'', 14 := ''b'', 15 := ''a''),
      live = {1, 2, 3, 4, 5, 12, 13, 14, 15}\<rparr>"

text \<open>
  What \<open>mergeTwoLists\<close> and \<open>mergesort\<close> compute on the lists of nodes: the merge
  takes the left node only when its string is strictly smaller, the split is at
  \<open>length div 2\<close>.
\<close>

fun merge_nodes :: "('a \<Rightarrow> string) \<Rightarrow> 'a list \<Rightarrow> 'a list \<Rightarrow> 'a list" where
  "merge_nodes s [] ys = ys"
| "merge_nodes s (x # xs) [] = x # xs"
| "merge_nodes s (x # xs) (y # ys) =
     (if strcmp (s x) (s y) < 0 then x # merge_nodes s xs (y # ys)
      else y # merge_nodes s (x # xs) ys)"

function msort_nodes :: "('a \<Rightarrow> string) \<Rightarrow> 'a list \<Rightarrow> 'a list" where
  "msort_nodes s xs =
     (if length xs \<le> 1 then xs
      else merge_nodes s (msort_nodes s (take (length xs div 2) xs))
                         (msort_nodes s (drop (length xs div 2) xs)))"
  by pat_completeness auto
termination
  by (relation "measure (\<lambda>(s, xs). length xs)") auto

text \<open>
  \<open>mergeTwoLists\<close> from the middle of its run: the loop from the given \<open>l1\<close>, \<open>l2\<close>,
  \<open>head\<close> and \<open>ptr\<close>, then the final store of \<open>l1 | l2\<close>.
\<close>

definition merge_from :: "heap \<Rightarrow> addr \<Rightarrow> addr \<Rightarrow> addr \<Rightarrow> loc \<Rightarrow> (heap \<times> addr) option" where
  "merge_from h l1 l2 head ptr =
     do {
       (h', l1', l2', head', ptr') \<leftarrow> mergeTwoLists_loop h l1 l2 head ptr;
       Some (store ptr' (l1' OR l2') (h', head'))
     }"

text \<open>The nodes of the queue, first to last, after \<open>q_sort\<close>.\<close>

definition nodes_after_sort :: "heap \<Rightarrow> addr \<Rightarrow> addr list option" where
  "nodes_after_sort h head = do { h' \<leftarrow> q_sort h head; q_nodes h' head }"

text \<open>
  The invariant in the words of the spec, for a queue of \<open>n\<close> elements: every node
  \<open>x\<close> reached from the sentinel by at most \<open>n\<close> steps of \<open>next\<close> (the sentinel and
  the elements) has \<open>x.next.prev = x\<close> and \<open>x.prev.next = x\<close>; \<open>n\<close> steps of \<open>next\<close> and
  one more lead back to the sentinel, and so do \<open>n + 1\<close> steps of \<open>prev\<close>.
\<close>

definition ring_invariant :: "heap \<Rightarrow> addr \<Rightarrow> nat \<Rightarrow> bool" where
  "ring_invariant h head n =
     ((\<forall>i \<le> n. prv h (nxt h ((nxt h ^^ i) head)) = (nxt h ^^ i) head \<and>
                nxt h (prv h ((nxt h ^^ i) head)) = (nxt h ^^ i) head) \<and>
      (nxt h ^^ Suc n) head = head \<and> (prv h ^^ Suc n) head = head)"

text \<open>
  After an operation the heap \<open>h'\<close> holds a well-formed queue of the nodes \<open>ys\<close>, the
  invariant of the spec holds for its size, and \<open>q_size\<close> returns that size.
\<close>

definition ring_after :: "heap \<Rightarrow> addr \<Rightarrow> addr list \<Rightarrow> bool" where
  "ring_after h' head ys =
     (queue h' head ys \<and> ring_invariant h' head (length ys) \<and>
      q_size h' head = Some (word_of_nat (length ys)))"

section \<open>Facts about links and the list primitives\<close>

lemma linked_Cons: "linked f (x # zs) = (zs = [] \<or> (f x = hd zs \<and> linked f zs))"
  by (cases zs) auto

lemma linked_append:
  "xs \<noteq> [] \<Longrightarrow> ys \<noteq> [] \<Longrightarrow> linked f (xs @ ys) = (linked f xs \<and> f (last xs) = hd ys \<and> linked f ys)"
proof (induction f xs rule: linked.induct)
  case (2 f x)
  then show ?case by (cases ys) auto
qed auto

lemma linked_appendD: "linked f (xs @ ys) \<Longrightarrow> linked f xs \<and> linked f ys"
  by (cases "xs = []"; cases "ys = []") (simp_all add: linked_append)

lemma linked_upd: "a \<notin> set (butlast zs) \<Longrightarrow> linked (f(a := v)) zs = linked f zs"
  by (induction f zs rule: linked.induct) auto

lemma linked_nth: "linked f zs \<Longrightarrow> Suc i < length zs \<Longrightarrow> f (zs ! i) = zs ! Suc i"
proof (induction f zs arbitrary: i rule: linked.induct)
  case (3 f x y zs)
  then show ?case by (cases i) auto
qed auto

lemma last_notin_butlast: "distinct zs \<Longrightarrow> zs \<noteq> [] \<Longrightarrow> last zs \<notin> set (butlast zs)"
  by (induction zs) auto

lemma linked_unlink:
  assumes "distinct (head # as @ x # bs)" "linked f (head # as @ x # bs @ [head])"
  shows "linked (f(last (head # as) := hd (bs @ [head]))) (head # as @ bs @ [head])"
proof -
  let ?p = "last (head # as)"
  let ?f = "f(?p := hd (bs @ [head]))"
  have 1: "linked f (head # as)" "linked f (x # bs @ [head])"
    using linked_appendD[of f "head # as" "x # bs @ [head]"] assms(2) by simp_all
  then have 2: "linked f (bs @ [head])" by (simp add: linked_Cons)
  have d: "distinct (head # as)" using assms(1) by simp
  have p1: "?p \<notin> set (butlast (head # as))"
    by (rule last_notin_butlast[OF d]) simp
  have pin: "?p \<in> set (head # as)" by (rule last_in_set) simp
  have p2: "?p \<notin> set bs" using assms(1) pin by auto
  have 3: "linked ?f (head # as)" by (rule linked_upd[THEN iffD2, OF p1 1(1)])
  have 4: "linked ?f (bs @ [head])" using 2 p2 by (simp add: linked_upd)
  have "linked ?f ((head # as) @ (bs @ [head]))"
    by (subst linked_append) (use 3 4 in simp_all)
  then show ?thesis by simp
qed

lemma linked_insert:
  assumes "distinct (head # as @ bs)" "x \<notin> set (head # as @ bs)"
    "linked f (head # as @ bs @ [head])"
  shows "linked (f(x := hd (bs @ [head]), last (head # as) := x)) (head # as @ x # bs @ [head])"
proof -
  let ?p = "last (head # as)"
  let ?f = "f(x := hd (bs @ [head]), ?p := x)"
  have 1: "linked f (head # as)" "linked f (bs @ [head])"
    using linked_appendD[of f "head # as" "bs @ [head]"] assms(3) by simp_all
  have d: "distinct (head # as)" using assms(1) by simp
  have p1: "?p \<notin> set (butlast (head # as))"
    by (rule last_notin_butlast[OF d]) simp
  have pin: "?p \<in> set (head # as)" by (rule last_in_set) simp
  have p2: "?p \<notin> set bs" using assms(1) pin by auto
  have px: "?p \<noteq> x" using pin assms(2) by auto
  have x1: "x \<notin> set (butlast (head # as))" using assms(2) by (auto dest: in_set_butlastD)
  have 3: "linked ?f (head # as)"
    by (rule linked_upd[THEN iffD2, OF p1]) (rule linked_upd[THEN iffD2, OF x1 1(1)])
  have 4: "linked ?f (bs @ [head])" using 1 p2 assms(2) by (simp add: linked_upd)
  have 5: "linked ?f (x # bs @ [head])" using 4 px by (simp add: linked_Cons)
  have "linked ?f ((head # as) @ (x # bs @ [head]))"
    by (subst linked_append) (use 3 5 in simp_all)
  then show ?thesis by simp
qed

lemma last_Cons_rev: "last (a # rev bs) = hd (bs @ [a])"
  by (cases bs) auto

lemma hd_rev_snoc: "hd (rev as @ [a]) = last (a # as)"
  by (cases as rule: rev_cases) auto

lemma queue_nxt_at: "queue h head (as @ x # bs) \<Longrightarrow> nxt h x = hd (bs @ [head])"
  using linked_appendD[of "nxt h" "head # as" "x # bs @ [head]"]
  by (simp add: queue_def linked_Cons)

lemma queue_prv_at: "queue h head (as @ x # bs) \<Longrightarrow> prv h x = last (head # as)"
  using linked_appendD[of "prv h" "head # rev bs" "x # rev as @ [head]"]
  by (simp add: queue_def linked_Cons hd_rev_snoc del: last.simps)

lemma queue_nxt_head: "queue h head xs \<Longrightarrow> nxt h head = hd (xs @ [head])"
  by (simp add: queue_def linked_Cons)

lemma queue_prv_head: "queue h head xs \<Longrightarrow> prv h head = last (head # xs)"
  by (simp add: queue_def linked_Cons hd_rev_snoc del: last.simps)

lemma queue_list_del:
  assumes "queue h head (as @ x # bs)"
  shows "queue (list_del h x) head (as @ bs)"
proof -
  have n: "nxt h x = hd (bs @ [head])" and p: "prv h x = last (head # as)"
    using assms by (rule queue_nxt_at, rule queue_prv_at)
  have d: "distinct (head # as @ x # bs)" "distinct (head # rev bs @ x # rev as)"
    using assms by (auto simp: queue_def)
  have l: "linked (nxt h) (head # as @ x # bs @ [head])"
    "linked (prv h) (head # rev bs @ x # rev as @ [head])"
    using assms by (simp_all add: queue_def)
  have 1: "linked (nxt (list_del h x)) (head # as @ bs @ [head])"
    using linked_unlink[OF d(1) l(1)] by (simp add: list_del_def n p Let_def del: last.simps)
  have 2: "linked (prv (list_del h x)) (head # rev bs @ rev as @ [head])"
    using linked_unlink[OF d(2) l(2)]
    by (simp add: list_del_def n p Let_def last_Cons_rev hd_rev_snoc del: last.simps)
  show ?thesis using assms 1 2 by (simp add: queue_def)
qed

lemma queue_nxt_last: "queue h head (as @ bs) \<Longrightarrow> nxt h (last (head # as)) = hd (bs @ [head])"
  using linked_append[of "head # as" "bs @ [head]" "nxt h"]
  by (simp add: queue_def del: last.simps)

lemma queue_prv_hd: "queue h head (as @ bs) \<Longrightarrow> prv h (hd (bs @ [head])) = last (head # as)"
  using linked_append[of "head # rev bs" "rev as @ [head]" "prv h"]
  by (simp add: queue_def last_Cons_rev hd_rev_snoc del: last.simps)

lemma queue_list_add:
  assumes "queue h head (as @ bs)" "x \<notin> set (head # as @ bs)" "x \<noteq> 0"
  shows "queue (list_add h x (last (head # as))) head (as @ x # bs)"
proof -
  let ?a = "last (head # as)" and ?n = "hd (bs @ [head])"
  have n: "nxt h ?a = ?n" using assms(1) by (rule queue_nxt_last)
  have d: "distinct (head # as @ bs)" "distinct (head # rev bs @ rev as)"
    using assms by (auto simp: queue_def)
  have x: "x \<notin> set (head # rev bs @ rev as)" using assms(2) by auto
  have l: "linked (nxt h) (head # as @ bs @ [head])"
    "linked (prv h) (head # rev bs @ rev as @ [head])"
    using assms by (simp_all add: queue_def)
  have "?n \<in> set (head # bs)" by (cases bs) auto
  then have xn: "x \<noteq> ?n" using assms(2) by auto
  have 1: "linked (nxt (list_add h x ?a)) (head # as @ x # bs @ [head])"
    using linked_insert[OF d(1) assms(2) l(1)] by (simp add: list_add_def n Let_def del: last.simps)
  have 2: "linked (prv (list_add h x ?a)) (head # rev bs @ x # rev as @ [head])"
    using linked_insert[OF d(2) x l(2)] xn
    by (simp add: list_add_def n Let_def last_Cons_rev hd_rev_snoc fun_upd_twist del: last.simps)
  show ?thesis using assms 1 2 by (auto simp: queue_def)
qed

lemma queue_list_add_tail:
  assumes "queue h head (as @ bs)" "x \<notin> set (head # as @ bs)" "x \<noteq> 0"
  shows "queue (list_add_tail h x (hd (bs @ [head]))) head (as @ x # bs)"
proof -
  let ?p = "last (head # as)" and ?a = "hd (bs @ [head])"
  have p: "prv h ?a = ?p" using assms(1) by (rule queue_prv_hd)
  have d: "distinct (head # as @ bs)" "distinct (head # rev bs @ rev as)"
    using assms by (auto simp: queue_def)
  have x: "x \<notin> set (head # rev bs @ rev as)" using assms(2) by auto
  have l: "linked (nxt h) (head # as @ bs @ [head])"
    "linked (prv h) (head # rev bs @ rev as @ [head])"
    using assms by (simp_all add: queue_def)
  have "?p \<in> set (head # as)" by (rule last_in_set) simp
  then have xp: "x \<noteq> ?p" using assms(2) by auto
  have 1: "linked (nxt (list_add_tail h x ?a)) (head # as @ x # bs @ [head])"
    using linked_insert[OF d(1) assms(2) l(1)] xp
    by (simp add: list_add_tail_def p Let_def fun_upd_twist del: last.simps)
  have 2: "linked (prv (list_add_tail h x ?a)) (head # rev bs @ x # rev as @ [head])"
    using linked_insert[OF d(2) x l(2)]
    by (simp add: list_add_tail_def p Let_def last_Cons_rev hd_rev_snoc del: last.simps)
  show ?thesis using assms 1 2 by (auto simp: queue_def)
qed

lemma queue_list_move:
  assumes "queue h head (as @ x # bs)"
  shows "queue (list_move h x head) head (x # as @ bs)"
proof -
  have q: "queue (list_del h x) head ([] @ (as @ bs))"
    using queue_list_del[OF assms] by simp
  have "x \<notin> set (head # [] @ (as @ bs))" "x \<noteq> 0" using assms by (auto simp: queue_def)
  from queue_list_add[OF q this] show ?thesis by (simp add: list_move_def)
qed

lemma list_del_frame [simp]:
  "e_value (list_del h x) = e_value h" "str (list_del h x) = str h" "live (list_del h x) = live h"
  by (simp_all add: list_del_def Let_def)

lemma list_add_frame [simp]:
  "e_value (list_add h x a) = e_value h" "str (list_add h x a) = str h" "live (list_add h x a) = live h"
  by (simp_all add: list_add_def Let_def)

lemma list_add_tail_frame [simp]:
  "e_value (list_add_tail h x a) = e_value h" "str (list_add_tail h x a) = str h"
  "live (list_add_tail h x a) = live h"
  by (simp_all add: list_add_tail_def Let_def)

lemma list_move_frame [simp]:
  "e_value (list_move h x a) = e_value h" "str (list_move h x a) = str h"
  "live (list_move h x a) = live h"
  by (simp_all add: list_move_def)

lemma free_frame [simp]:
  "nxt (free h p) = nxt h" "prv (free h p) = prv h" "e_value (free h p) = e_value h"
  "str (free h p) = str h"
  by (simp_all add: free_def)

lemma q_release_element_frame [simp]:
  "nxt (q_release_element h p) = nxt h" "prv (q_release_element h p) = prv h"
  "e_value (q_release_element h p) = e_value h" "str (q_release_element h p) = str h"
  by (simp_all add: q_release_element_def)

lemma elem_str_frame:
  "e_value h' = e_value h \<Longrightarrow> str h' = str h \<Longrightarrow> elem_str h' = elem_str h"
  by (rule ext) (simp add: elem_str_def)

lemma queue_frame:
  "nxt h' = nxt h \<Longrightarrow> prv h' = prv h \<Longrightarrow> queue h' head xs = queue h head xs"
  by (simp add: queue_def)

lemma queue_release [simp]: "queue (q_release_element h p) head xs = queue h head xs"
  by (rule queue_frame) simp_all

lemma queue_nxt_nth:
  assumes "queue h head xs" "i < length xs"
  shows "nxt h ((xs @ [head]) ! i) = (xs @ [head]) ! Suc i"
proof -
  have "linked (nxt h) (head # xs @ [head])" using assms(1) by (simp add: queue_def)
  from linked_nth[OF this, of "Suc i"] assms(2) show ?thesis by simp
qed

lemma queue_nth_head:
  assumes "queue h head xs" "i \<le> length xs"
  shows "((xs @ [head]) ! i = head) = (i = length xs)"
proof (cases "i = length xs")
  case True
  then show ?thesis by simp
next
  case False
  then have "i < length xs" using assms(2) by simp
  then have "(xs @ [head]) ! i \<in> set xs" by (simp add: nth_append)
  moreover have "head \<notin> set xs" using assms(1) by (simp add: queue_def)
  ultimately show ?thesis using False by auto
qed

lemma queue_empty_iff: "queue h head xs \<Longrightarrow> list_empty h head = (xs = [])"
  using queue_nxt_head[of h head xs]
  by (cases xs) (auto simp: list_empty_def queue_def)

lemma q_size_loop_correct:
  assumes "queue h head xs"
  shows "i \<le> length xs \<Longrightarrow>
    q_size_loop h head ((xs @ [head]) ! i) c = Some (c + of_nat (length xs - i))"
proof (induction "length xs - i" arbitrary: i c)
  case 0
  then have "i = length xs" by simp
  then show ?case by (subst q_size_loop.simps) simp
next
  case (Suc k)
  then have i: "i < length xs" by simp
  then have ne: "(xs @ [head]) ! i \<noteq> head"
    using queue_nth_head[OF assms, of i] by simp
  have k: "k = length xs - Suc i" using Suc.hyps(2) by simp
  have s: "length xs - i = Suc (length xs - Suc i)" using i by simp
  show ?case
    apply (subst q_size_loop.simps)
    apply (simp only: ne queue_nxt_nth[OF assms i] if_True not_False_eq_True)
    apply (subst Suc.hyps(1)[OF k])
    using i apply simp
    apply (simp add: s)
    done
qed

lemma q_size_correct:
  assumes "queue h head xs"
  shows "q_size h head = Some (of_nat (length xs))"
proof (cases xs)
  case Nil
  then show ?thesis using queue_empty_iff[OF assms] by (simp add: q_size_def)
next
  case (Cons x xs')
  have "head \<noteq> 0" using assms by (simp add: queue_def)
  moreover have "\<not> list_empty h head" using queue_empty_iff[OF assms] Cons by simp
  moreover have "nxt h head = (xs @ [head]) ! 0" using queue_nxt_head[OF assms] Cons by simp
  ultimately show ?thesis
    using q_size_loop_correct[OF assms, of 0 0] by (simp add: q_size_def)
qed

lemma q_delete_mid_loop_correct:
  assumes "queue h head xs"
  shows "2 * k \<le> length xs \<Longrightarrow>
    q_delete_mid_loop h head ((xs @ [head]) ! (2 * k)) ((xs @ [head]) ! k)
      = Some ((xs @ [head]) ! (length xs div 2))"
proof (induction "length xs - 2 * k" arbitrary: k rule: less_induct)
  case less
  let ?zs = "xs @ [head]"
  show ?case
  proof (cases "2 * k + 2 \<le> length xs")
    case True
    then have f1: "?zs ! (2 * k) \<noteq> head" and f2: "?zs ! Suc (2 * k) \<noteq> head"
      using queue_nth_head[OF assms, of "2 * k"] queue_nth_head[OF assms, of "Suc (2 * k)"] by simp_all
    have n1: "nxt h (?zs ! (2 * k)) = ?zs ! Suc (2 * k)"
      and n2: "nxt h (?zs ! Suc (2 * k)) = ?zs ! (2 * Suc k)"
      and n3: "nxt h (?zs ! k) = ?zs ! Suc k"
      using queue_nxt_nth[OF assms, of "2 * k"] queue_nxt_nth[OF assms, of "Suc (2 * k)"]
        queue_nxt_nth[OF assms, of k] True by simp_all
    have "q_delete_mid_loop h head (?zs ! (2 * Suc k)) (?zs ! Suc k) = Some (?zs ! (length xs div 2))"
      by (rule less.hyps) (use True in simp_all)
    then show ?thesis
      by (subst q_delete_mid_loop.simps) (simp only: f1 f2 n1 n2 n3 simp_thms if_True)
  next
    case False
    then have "2 * k = length xs \<or> Suc (2 * k) = length xs" using less.prems by arith
    then have c: "?zs ! (2 * k) = head \<or> nxt h (?zs ! (2 * k)) = head"
      and k: "k = length xs div 2"
      using queue_nth_head[OF assms, of "2 * k"] queue_nth_head[OF assms, of "Suc (2 * k)"]
        queue_nxt_nth[OF assms, of "2 * k"] by auto
    show ?thesis
      apply (subst q_delete_mid_loop.simps)
      using c k apply auto
      done
  qed
qed

section \<open>q_size and q_delete_mid\<close>

lemma live_release:
  "0 \<notin> live h \<Longrightarrow> x \<noteq> 0 \<Longrightarrow> live (q_release_element h x) = live h - {x, e_value h x}"
  by (auto simp: q_release_element_def free_def)

lemma nth_append_head: "i < length xs \<Longrightarrow> (xs @ [head]) ! i = xs ! i"
  by (simp add: nth_append)

lemma q_delete_mid_correct:
  assumes "queue h head xs" "xs \<noteq> []"
  shows "q_delete_mid h head =
     Some (q_release_element (list_del h (xs ! (length xs div 2))) (xs ! (length xs div 2)), True)"
    and "queue (q_release_element (list_del h (xs ! (length xs div 2))) (xs ! (length xs div 2)))
           head (take (length xs div 2) xs @ drop (Suc (length xs div 2)) xs)"
proof -
  let ?m = "length xs div 2"
  have m: "?m < length xs" using assms(2) by simp
  have h0: "head \<noteq> 0" "\<not> list_empty h head"
    using assms queue_empty_iff[OF assms(1)] by (simp_all add: queue_def)
  have n: "nxt h head = (xs @ [head]) ! 0" using queue_nxt_head[OF assms(1)] assms(2)
    by (cases xs) simp_all
  have "q_delete_mid_loop h head ((xs @ [head]) ! (2 * 0)) ((xs @ [head]) ! 0)
      = Some ((xs @ [head]) ! ?m)"
    by (rule q_delete_mid_loop_correct[OF assms(1)]) simp
  then have "q_delete_mid_loop h head (nxt h head) (nxt h head) = Some (xs ! ?m)"
    using n m by (simp add: nth_append)
  then show "q_delete_mid h head =
     Some (q_release_element (list_del h (xs ! ?m)) (xs ! ?m), True)"
    using h0 by (simp add: q_delete_mid_def)
  have "xs = take ?m xs @ xs ! ?m # drop (Suc ?m) xs" using m by (rule id_take_nth_drop)
  then have "queue h head (take ?m xs @ xs ! ?m # drop (Suc ?m) xs)" using assms(1) by simp
  from queue_list_del[OF this]
  show "queue (q_release_element (list_del h (xs ! ?m)) (xs ! ?m)) head
      (take ?m xs @ drop (Suc ?m) xs)" by simp
qed

lemma q_walk_correct:
  assumes "queue h head xs"
  shows "i \<le> length xs \<Longrightarrow> q_walk h head ((xs @ [head]) ! i) = Some (drop i xs)"
proof (induction "length xs - i" arbitrary: i)
  case 0
  then have "i = length xs" by simp
  then show ?case by (subst q_walk.simps) simp
next
  case (Suc k)
  then have i: "i < length xs" by simp
  then have ne: "(xs @ [head]) ! i \<noteq> head"
    using queue_nth_head[OF assms, of i] by simp
  have "q_walk h head ((xs @ [head]) ! Suc i) = Some (drop (Suc i) xs)"
    by (rule Suc.hyps(1)) (use Suc.hyps(2) i in simp_all)
  then show ?case
    apply (subst q_walk.simps)
    apply (simp only: ne if_False queue_nxt_nth[OF assms i])
    apply (simp add: nth_append_head[OF i] Cons_nth_drop_Suc[OF i])
    done
qed

lemma q_nodes_correct: "queue h head xs \<Longrightarrow> q_nodes h head = Some xs"
  using q_walk_correct[of h head xs 0] queue_nxt_head[of h head xs]
  by (cases xs) (simp_all add: q_nodes_def)

text \<open>
  Claim C4. On a non-empty queue of \<open>n\<close> elements \<open>q_delete_mid\<close> returns true,
  unlinks the node at zero-based index \<open>n div 2\<close> and frees it and its string; the
  other nodes keep their order and their strings. On an empty queue and on a \<open>NULL\<close>
  handle it returns false and leaves the heap as it was.
\<close>

theorem q_delete_mid_spec:
  assumes "queue h head xs" "0 \<notin> live h"
  shows "(xs \<noteq> [] \<longrightarrow>
           (\<exists>h'. q_delete_mid h head = Some (h', True) \<and>
              queue h' head (take (length xs div 2) xs @ drop (Suc (length xs div 2)) xs) \<and>
              live h' = live h - {xs ! (length xs div 2), e_value h (xs ! (length xs div 2))} \<and>
              e_value h' = e_value h \<and> str h' = str h)) \<and>
         (xs = [] \<longrightarrow> q_delete_mid h head = Some (h, False)) \<and>
         q_delete_mid h 0 = Some (h, False)"
proof (intro conjI impI)
  assume ne: "xs \<noteq> []"
  let ?x = "xs ! (length xs div 2)"
  have "?x \<in> set xs" using ne by simp
  then have "?x \<noteq> 0" using assms(1) by (auto simp: queue_def)
  then have "live (q_release_element (list_del h ?x) ?x) = live h - {?x, e_value h ?x}"
    using live_release[of "list_del h ?x" ?x] assms(2) by simp
  then show "\<exists>h'. q_delete_mid h head = Some (h', True) \<and>
      queue h' head (take (length xs div 2) xs @ drop (Suc (length xs div 2)) xs) \<and>
      live h' = live h - {?x, e_value h ?x} \<and> e_value h' = e_value h \<and> str h' = str h"
    using q_delete_mid_correct[OF assms(1) ne] by simp
next
  assume "xs = []"
  then show "q_delete_mid h head = Some (h, False)"
    using queue_empty_iff[OF assms(1)] by (simp add: q_delete_mid_def)
next
  show "q_delete_mid h 0 = Some (h, False)" by (simp add: q_delete_mid_def)
qed

lemma queue_heap6: "queue heap6 1 [2, 3, 4, 5, 6, 7]"
  by (simp add: queue_def heap6_def)

theorem q_delete_mid_spec_witness:
  "queue heap6 1 [2, 3, 4, 5, 6, 7] \<and> 0 \<notin> live heap6 \<and>
   (\<exists>h'. q_delete_mid heap6 1 = Some (h', True) \<and> queue h' 1 [2, 3, 4, 6, 7] \<and>
      live h' = {1, 2, 3, 4, 6, 7, 12, 13, 14, 16, 17})"
proof -
  have q: "queue heap6 1 [2, 3, 4, 5, 6, 7]" by (simp add: queue_def heap6_def)
  have l: "0 \<notin> live heap6" by (simp add: heap6_def)
  have "live heap6 - {5, e_value heap6 5} = {1, 2, 3, 4, 6, 7, 12, 13, 14, 16, 17}"
    by (auto simp: heap6_def)
  then show ?thesis using q l q_delete_mid_spec[OF q l] by auto
qed

lemma strings_after_delete_mid_correct:
  assumes "queue h head xs" "xs \<noteq> []"
  shows "strings_after_delete_mid h head =
     Some (map (elem_str h) (take (length xs div 2) xs @ drop (Suc (length xs div 2)) xs))"
proof -
  let ?x = "xs ! (length xs div 2)"
  let ?h = "q_release_element (list_del h ?x) ?x"
  have e: "elem_str ?h = elem_str h" by (rule elem_str_frame) simp_all
  show ?thesis
    using q_delete_mid_correct[OF assms] q_nodes_correct[of ?h head]
    by (simp add: strings_after_delete_mid_def q_strings_def e)
qed

text \<open>
  Claim C5, as amended. On a queue holding \<open>["a","b","c","d","e","f"]\<close>,
  \<open>q_delete_mid\<close> removes \<open>"d"\<close>, the element at zero-based index 3 = 6 div 2, and
  leaves \<open>["a","b","c","e","f"]\<close>.
\<close>

theorem q_delete_mid_six:
  assumes "queue h head xs"
    and "map (elem_str h) xs = [''a'', ''b'', ''c'', ''d'', ''e'', ''f'']"
  shows "strings_after_delete_mid h head = Some [''a'', ''b'', ''c'', ''e'', ''f'']"
proof -
  have l: "length xs = 6" using arg_cong[OF assms(2), of length] by simp
  then have ne: "xs \<noteq> []" by auto
  have "map (elem_str h) (take 3 xs @ drop 4 xs)
      = take 3 (map (elem_str h) xs) @ drop 4 (map (elem_str h) xs)"
    by (simp add: take_map drop_map)
  then show ?thesis
    using strings_after_delete_mid_correct[OF assms(1) ne] l by (simp add: assms(2))
qed

theorem q_delete_mid_six_witness:
  "queue heap6 1 [2, 3, 4, 5, 6, 7] \<and>
   map (elem_str heap6) [2, 3, 4, 5, 6, 7] = [''a'', ''b'', ''c'', ''d'', ''e'', ''f''] \<and>
   strings_after_delete_mid heap6 1 = Some [''a'', ''b'', ''c'', ''e'', ''f'']"
proof -
  have q: "queue heap6 1 [2, 3, 4, 5, 6, 7]" by (simp add: queue_def heap6_def)
  have m: "map (elem_str heap6) [2, 3, 4, 5, 6, 7] = [''a'', ''b'', ''c'', ''d'', ''e'', ''f'']"
    by (simp add: elem_str_def heap6_def)
  show ?thesis using q m q_delete_mid_six[OF q m] by simp
qed

text \<open>
  Claim C5 as the spec states it fails: on that queue the strings left are not
  \<open>["a","b","d","e","f"]\<close>.
\<close>

theorem q_delete_mid_six_counterexample:
  "strings_after_delete_mid heap6 1 \<noteq> Some [''a'', ''b'', ''d'', ''e'', ''f'']"
proof -
  have "strings_after_delete_mid heap6 1
      = Some (map (elem_str heap6) (take 3 [2, 3, 4, 5, 6, 7] @ drop 4 [2, 3, 4, 5, 6, 7]))"
    using strings_after_delete_mid_correct[OF queue_heap6] by simp
  then show ?thesis by (simp add: elem_str_def heap6_def)
qed

lemma queue_singular_iff:
  assumes "queue h head xs"
  shows "list_is_singular h head = (length xs = 1)"
proof (cases xs)
  case Nil
  then show ?thesis using queue_empty_iff[OF assms] by (simp add: list_is_singular_def)
next
  case (Cons x ys)
  have e: "\<not> list_empty h head" using queue_empty_iff[OF assms] Cons by simp
  have n: "nxt h head = x" using queue_nxt_head[OF assms] Cons by simp
  have p: "prv h head = last (x # ys)" using queue_prv_head[OF assms] Cons by simp
  show ?thesis
  proof (cases ys)
    case Nil
    then show ?thesis using e n p Cons by (simp add: list_is_singular_def)
  next
    case (Cons y zs)
    have "last (y # zs) \<in> set (y # zs)" by (rule last_in_set) simp
    moreover have "x \<notin> set (y # zs)" using assms \<open>xs = x # ys\<close> Cons by (simp add: queue_def)
    ultimately have "last (y # zs) \<noteq> x" by metis
    then show ?thesis using e n p Cons \<open>xs = x # ys\<close> by (simp add: list_is_singular_def)
  qed
qed

lemma q_reverse_loop_correct:
  "queue h head (done @ x # rest) \<Longrightarrow>
   \<exists>h'. q_reverse_loop h head x (hd (rest @ [head])) = Some h' \<and>
        queue h' head (rev (x # rest) @ done) \<and>
        e_value h' = e_value h \<and> str h' = str h \<and> live h' = live h"
proof (induction rest arbitrary: h "done" x)
  case Nil
  let ?h1 = "list_move h x head"
  have x: "x \<noteq> head" using Nil by (auto simp: queue_def)
  have q: "queue ?h1 head (x # done)" using queue_list_move[OF Nil] by simp
  have "q_reverse_loop ?h1 head head (nxt ?h1 head) = Some ?h1"
    by (subst q_reverse_loop.simps) simp
  then have "q_reverse_loop h head x (hd ([] @ [head])) = Some ?h1"
    by (subst q_reverse_loop.simps) (simp add: x Let_def)
  then show ?case using q by simp
next
  case (Cons y rest)
  let ?h1 = "list_move h x head"
  have x: "x \<noteq> head" using Cons.prems by (auto simp: queue_def)
  have q: "queue ?h1 head ((x # done) @ y # rest)" using queue_list_move[OF Cons.prems] by simp
  have n: "nxt ?h1 y = hd (rest @ [head])" using q by (rule queue_nxt_at)
  from Cons.IH[OF q] obtain h' where
    h': "q_reverse_loop ?h1 head y (hd (rest @ [head])) = Some h'"
      "queue h' head (rev (y # rest) @ x # done)"
      "e_value h' = e_value ?h1" "str h' = str ?h1" "live h' = live ?h1"
    by blast
  have "q_reverse_loop h head x (hd ((y # rest) @ [head])) = Some h'"
    by (subst q_reverse_loop.simps) (simp add: x Let_def n h'(1))
  then show ?case using h' by simp
qed

lemma q_reverse_correct:
  assumes "queue h head xs"
  shows "\<exists>h'. q_reverse h head = Some h' \<and> queue h' head (rev xs) \<and>
        e_value h' = e_value h \<and> str h' = str h \<and> live h' = live h"
proof (cases "list_empty h head \<or> list_is_singular h head")
  case True
  then have "length xs \<le> 1"
    using queue_empty_iff[OF assms] queue_singular_iff[OF assms] by auto
  then have "rev xs = xs" by (cases xs) auto
  then show ?thesis using True assms by (simp add: q_reverse_def)
next
  case False
  then obtain x rest where xs: "xs = x # rest"
    using queue_empty_iff[OF assms] by (cases xs) auto
  have h0: "head \<noteq> 0" using assms by (simp add: queue_def)
  have q: "queue h head ([] @ x # rest)" using assms xs by simp
  have n: "nxt h head = x" using queue_nxt_head[OF assms] xs by simp
  have n2: "nxt h x = hd (rest @ [head])" using q by (rule queue_nxt_at)
  from q_reverse_loop_correct[OF q] show ?thesis
    using False h0 by (simp add: q_reverse_def n n2 xs)
qed

lemma q_swap_loop_correct:
  "queue h head (done @ rest) \<Longrightarrow>
   \<exists>h'. q_swap_loop h head (hd (rest @ [head])) = Some h' \<and>
        queue h' head (done @ swap_pairs rest) \<and>
        e_value h' = e_value h \<and> str h' = str h \<and> live h' = live h"
proof (induction rest arbitrary: h "done" rule: swap_pairs.induct)
  case (1 x y zs)
  let ?h1 = "list_del h y" 
  let ?h2 = "list_add_tail ?h1 y x"
  have x: "x \<noteq> head" "y \<noteq> head" "y \<noteq> 0" "y \<notin> set (head # done @ x # zs)"
    using 1(2) by (auto simp: queue_def)
  have n: "nxt h x = y" using queue_nxt_at[of h head "done" x "y # zs"] 1(2) by simp
  have "queue h head ((done @ [x]) @ y # zs)" using 1(2) by simp
  from queue_list_del[OF this] have q1: "queue ?h1 head (done @ x # zs)" by simp
  from queue_list_add_tail[OF q1 x(4) x(3)]
  have q2: "queue ?h2 head (done @ y # x # zs)" by simp
  then have q2': "queue ?h2 head ((done @ [y, x]) @ zs)" by simp
  have n2: "nxt ?h2 x = hd (zs @ [head])"
    using queue_nxt_at[of ?h2 head "done @ [y]" x zs] q2 by simp
  from 1(1)[OF q2'] obtain h' where
    h': "q_swap_loop ?h2 head (hd (zs @ [head])) = Some h'"
      "queue h' head ((done @ [y, x]) @ swap_pairs zs)"
      "e_value h' = e_value ?h2" "str h' = str ?h2" "live h' = live ?h2"
    by blast
  have "q_swap_loop h head (hd ((x # y # zs) @ [head])) = Some h'"
    by (subst q_swap_loop.simps) (simp add: x n Let_def n2 h'(1))
  then show ?case using h' by simp
next
  case 3
  have "q_swap_loop h head head = Some h" by (subst q_swap_loop.simps) simp
  then show ?case using 3 by simp
next
  case (2 v)
  have n: "nxt h v = head" using queue_nxt_at[of h head "done" v "[]"] 2 by simp
  have "q_swap_loop h head v = Some h" by (subst q_swap_loop.simps) (simp add: n)
  then show ?case using 2 by simp
qed

lemma q_swap_correct:
  assumes "queue h head xs"
  shows "\<exists>h'. q_swap h head = Some h' \<and> queue h' head (swap_pairs xs) \<and>
        e_value h' = e_value h \<and> str h' = str h \<and> live h' = live h"
proof (cases "list_empty h head \<or> list_is_singular h head")
  case True
  then have "length xs \<le> 1"
    using queue_empty_iff[OF assms] queue_singular_iff[OF assms] by auto
  then have "swap_pairs xs = xs" by (cases xs rule: swap_pairs.cases) auto
  then show ?thesis using True assms by (simp add: q_swap_def)
next
  case False
  have h0: "head \<noteq> 0" using assms by (simp add: queue_def)
  have q: "queue h head ([] @ xs)" using assms by simp
  have n: "nxt h head = hd (xs @ [head])" using queue_nxt_head[OF assms] .
  from q_swap_loop_correct[OF q] show ?thesis
    using False h0 by (simp add: q_swap_def n)
qed

lemma queue_heap1: "queue heap1 1 [2]"
  by (simp add: queue_def heap1_def)

lemma queue_heap3: "queue heap3 1 [2, 3, 4]"
  by (simp add: queue_def heap3_def)

subsection \<open>Insertion\<close>

lemma q_insert_head_ok:
  assumes "queue h head xs" "e \<notin> set (head # xs)" "e \<noteq> 0" "v \<noteq> 0"
  shows "\<exists>h'. q_insert_head h head s e v = (h', True) \<and> queue h' head (e # xs) \<and>
           elem_str h' e = s"
proof -
  let ?h3 = "(strdup (h\<lparr>live := insert e (live h)\<rparr>) s v)
      \<lparr>e_value := (e_value (strdup (h\<lparr>live := insert e (live h)\<rparr>) s v))(e := v)\<rparr>"
  have h0: "head \<noteq> 0" using assms(1) by (simp add: queue_def)
  have "queue ?h3 head xs = queue h head xs"
    by (rule queue_frame) (simp_all add: strdup_def)
  then have "queue ?h3 head ([] @ xs)" using assms(1) by simp
  from queue_list_add[OF this, of e] assms(2,3)
  have "queue (list_add ?h3 e head) head (e # xs)" by simp
  moreover have "elem_str (list_add ?h3 e head) e = s"
    using assms(4) by (simp add: elem_str_def strdup_def)
  ultimately show ?thesis
    using h0 assms(3,4) by (simp add: q_insert_head_def Let_def)
qed

lemma q_insert_tail_ok:
  assumes "queue h head xs" "e \<notin> set (head # xs)" "e \<noteq> 0" "v \<noteq> 0"
  shows "\<exists>h'. q_insert_tail h head s e v = (h', True) \<and> queue h' head (xs @ [e]) \<and>
           elem_str h' e = s"
proof -
  let ?h3 = "(strdup (h\<lparr>live := insert e (live h)\<rparr>) s v)
      \<lparr>e_value := (e_value (strdup (h\<lparr>live := insert e (live h)\<rparr>) s v))(e := v)\<rparr>"
  have h0: "head \<noteq> 0" using assms(1) by (simp add: queue_def)
  have "queue ?h3 head xs = queue h head xs"
    by (rule queue_frame) (simp_all add: strdup_def)
  then have "queue ?h3 head (xs @ [])" using assms(1) by simp
  from queue_list_add_tail[OF this, of e] assms(2,3)
  have "queue (list_add_tail ?h3 e head) head (xs @ [e])" by simp
  moreover have "elem_str (list_add_tail ?h3 e head) e = s"
    using assms(4) by (simp add: elem_str_def strdup_def)
  ultimately show ?thesis
    using h0 assms(3,4) by (simp add: q_insert_tail_def Let_def)
qed

lemma q_insert_head_false_iff:
  "(\<not> snd (q_insert_head h head s e v)) = (head = 0 \<or> e = 0 \<or> v = 0)"
  by (simp add: q_insert_head_def Let_def)

lemma q_insert_tail_false_iff:
  "(\<not> snd (q_insert_tail h head s e v)) = (head = 0 \<or> e = 0 \<or> v = 0)"
  by (simp add: q_insert_tail_def Let_def)

lemma q_insert_head_fail:
  assumes "\<not> snd (q_insert_head h head s e v)"
  shows "fst (q_insert_head h head s e v) =
     (if head = 0 \<or> e = 0 then h
      else h\<lparr>e_value := (e_value h)(e := 0), live := insert e (live h) - {e}\<rparr>)"
  using assms by (auto simp: q_insert_head_def Let_def strdup_def free_def split: if_splits)

lemma q_insert_tail_fail:
  assumes "\<not> snd (q_insert_tail h head s e v)"
  shows "fst (q_insert_tail h head s e v) =
     (if head = 0 \<or> e = 0 then h
      else h\<lparr>e_value := (e_value h)(e := 0), live := insert e (live h) - {e}\<rparr>)"
  using assms by (auto simp: q_insert_tail_def Let_def strdup_def free_def split: if_splits)

text \<open>
  Claim C8. \<open>q_insert_head\<close> and \<open>q_insert_tail\<close> return false exactly when the
  handle is \<open>NULL\<close>, the node allocation fails or the string duplication fails; then
  every \<open>next\<close> and \<open>prev\<close> link, every string, the set of allocated blocks and the
  \<open>value\<close> pointer of every allocated element are as before the call (the block that
  \<open>malloc\<close> handed out and \<open>free\<close> took back is not allocated before or after).
\<close>

theorem q_insert_failure_leaves_queue:
  assumes "e = 0 \<or> e \<notin> live h"
  shows "(\<not> snd (q_insert_head h head s e v) \<longrightarrow> same_queue h (fst (q_insert_head h head s e v))) \<and>
         (\<not> snd (q_insert_tail h head s e v) \<longrightarrow> same_queue h (fst (q_insert_tail h head s e v))) \<and>
         ((\<not> snd (q_insert_head h head s e v)) = (head = 0 \<or> e = 0 \<or> v = 0)) \<and>
         ((\<not> snd (q_insert_tail h head s e v)) = (head = 0 \<or> e = 0 \<or> v = 0))"
proof (intro conjI impI)
  assume "\<not> snd (q_insert_head h head s e v)"
  from q_insert_head_fail[OF this] show "same_queue h (fst (q_insert_head h head s e v))"
    using assms by (auto simp: same_queue_def)
next
  assume "\<not> snd (q_insert_tail h head s e v)"
  from q_insert_tail_fail[OF this] show "same_queue h (fst (q_insert_tail h head s e v))"
    using assms by (auto simp: same_queue_def)
qed (rule q_insert_head_false_iff, rule q_insert_tail_false_iff)

lemma same_queue_queue: "same_queue h h' \<Longrightarrow> queue h' head xs = queue h head xs"
  by (rule queue_frame) (simp_all add: same_queue_def)

lemma same_queue_strings:
  "same_queue h h' \<Longrightarrow> set xs \<subseteq> live h \<Longrightarrow> map (elem_str h') xs = map (elem_str h) xs"
  by (auto simp: same_queue_def elem_str_def)

theorem q_insert_failure_leaves_queue_witness:
  "(9 = (0::addr) \<or> 9 \<notin> live heap3) \<and>
   \<not> snd (q_insert_head heap3 1 ''z'' 9 0) \<and>
   same_queue heap3 (fst (q_insert_head heap3 1 ''z'' 9 0)) \<and>
   \<not> snd (q_insert_tail heap3 1 ''z'' 9 0) \<and>
   same_queue heap3 (fst (q_insert_tail heap3 1 ''z'' 9 0))"
proof -
  have f: "9 = (0::addr) \<or> 9 \<notin> live heap3" by (simp add: heap3_def)
  have a: "\<not> snd (q_insert_head heap3 1 ''z'' 9 0)" "\<not> snd (q_insert_tail heap3 1 ''z'' 9 0)"
    by (simp_all add: q_insert_head_def q_insert_tail_def Let_def)
  show ?thesis
    using f a q_insert_failure_leaves_queue[OF f, of 1 "''z''" 0] by simp
qed

subsection \<open>Removal\<close>

lemma copy_out_fits:
  assumes "bufsize \<noteq> 0" "unat bufsize \<le> length b"
  shows "\<exists>b'. copy_out b s bufsize = Returned b' \<and> length b' = length b \<and>
           b' ! (unat bufsize - 1) = CHR 0x00 \<and>
           (\<forall>i < unat bufsize - 1. b' ! i = (if i < length s then s ! i else CHR 0x00)) \<and>
           (\<forall>i. unat bufsize \<le> i \<and> i < length b \<longrightarrow> b' ! i = b ! i)"
proof -
  have u: "unat (bufsize - 1) = unat bufsize - 1"
    using assms(1) by (simp add: unat_minus_one)
  have p: "0 < unat bufsize" using assms(1) by (simp add: unat_gt_0)
  let ?w = "map (\<lambda>i. if i < unat bufsize - 1 then (if i < length s then s ! i else CHR 0x00)
                        else b ! i) [0..<length b]"
  have c: "copy_out b s bufsize = Returned (?w[unat bufsize - 1 := CHR 0x00])"
    using assms(2) p by (simp add: copy_out_def strncpy_def u Let_def)
  show ?thesis
    unfolding c using assms(2) p by (auto simp: nth_list_update)
qed

lemma q_remove_head_ok:
  assumes "queue h head (x # xs)" "copy_fits sp bufsize"
  shows "\<exists>sp'. q_remove_head h head sp bufsize = Returned (list_del h x, sp', x)"
    and "queue (list_del h x) head xs"
proof -
  have h0: "head \<noteq> 0" "\<not> list_empty h head"
    using assms(1) queue_empty_iff[OF assms(1)] by (simp_all add: queue_def)
  have n: "nxt h head = x" using queue_nxt_head[OF assms(1)] by simp
  show "\<exists>sp'. q_remove_head h head sp bufsize = Returned (list_del h x, sp', x)"
  proof (cases sp)
    case None
    then show ?thesis using h0 n by (simp add: q_remove_head_def Let_def)
  next
    case (Some b)
    then have "bufsize \<noteq> 0" "unat bufsize \<le> length b"
      using assms(2) by (simp_all add: copy_fits_def)
    from copy_out_fits[OF this, of "elem_str h x"] obtain b' where
      "copy_out b (elem_str h x) bufsize = Returned b'" by blast
    then show ?thesis using h0 n Some by (simp add: q_remove_head_def Let_def)
  qed
  show "queue (list_del h x) head xs"
    using queue_list_del[of h head "[]" x xs] assms(1) by simp
qed

lemma q_remove_tail_ok:
  assumes "queue h head (xs @ [x])" "copy_fits sp bufsize"
  shows "\<exists>sp'. q_remove_tail h head sp bufsize = Returned (list_del h x, sp', x)"
    and "queue (list_del h x) head xs"
proof -
  have h0: "head \<noteq> 0" "\<not> list_empty h head"
    using assms(1) queue_empty_iff[OF assms(1)] by (simp_all add: queue_def)
  have n: "prv h head = x" using queue_prv_head[OF assms(1)] by simp
  show "\<exists>sp'. q_remove_tail h head sp bufsize = Returned (list_del h x, sp', x)"
  proof (cases sp)
    case None
    then show ?thesis using h0 n by (simp add: q_remove_tail_def Let_def)
  next
    case (Some b)
    then have "bufsize \<noteq> 0" "unat bufsize \<le> length b"
      using assms(2) by (simp_all add: copy_fits_def)
    from copy_out_fits[OF this, of "elem_str h x"] obtain b' where
      "copy_out b (elem_str h x) bufsize = Returned b'" by blast
    then show ?thesis using h0 n Some by (simp add: q_remove_tail_def Let_def)
  qed
  show "queue (list_del h x) head xs"
    using queue_list_del[of h head xs x "[]"] assms(1) by simp
qed

lemma q_remove_head_Returned:
  assumes "queue h head xs" "q_remove_head h head sp bufsize = Returned r"
  shows "queue (fst r) head (tl xs)"
proof (cases xs)
  case Nil
  then show ?thesis
    using assms queue_empty_iff[OF assms(1)] by (auto simp: q_remove_head_def)
next
  case (Cons x ys)
  then have q: "queue h head (x # ys)" using assms(1) by simp
  have h0: "head \<noteq> 0" "\<not> list_empty h head"
    using q queue_empty_iff[OF q] by (simp_all add: queue_def)
  have n: "nxt h head = x" using queue_nxt_head[OF q] by simp
  have "fst r = list_del h x"
    using assms(2) h0 n
    by (auto simp: q_remove_head_def Let_def split: option.splits outcome.splits)
  then show ?thesis using queue_list_del[of h head "[]" x ys] q Cons by simp
qed

lemma q_remove_tail_Returned:
  assumes "queue h head xs" "q_remove_tail h head sp bufsize = Returned r"
  shows "queue (fst r) head (butlast xs)"
proof (cases xs rule: rev_cases)
  case Nil
  then show ?thesis
    using assms queue_empty_iff[OF assms(1)] by (auto simp: q_remove_tail_def)
next
  case (snoc ys x)
  then have q: "queue h head (ys @ [x])" using assms(1) by simp
  have h0: "head \<noteq> 0" "\<not> list_empty h head"
    using q queue_empty_iff[OF q] by (simp_all add: queue_def)
  have n: "prv h head = x" using queue_prv_head[OF q] by simp
  have "fst r = list_del h x"
    using assms(2) h0 n
    by (auto simp: q_remove_tail_def Let_def split: option.splits outcome.splits)
  then show ?thesis using queue_list_del[of h head ys x "[]"] q snoc by simp
qed

lemma q_remove_head_returns:
  assumes "queue h head xs" "xs = [] \<or> copy_fits sp bufsize"
  shows "\<exists>r. q_remove_head h head sp bufsize = Returned r"
proof (cases xs)
  case Nil
  then show ?thesis using queue_empty_iff[OF assms(1)] by (simp add: q_remove_head_def)
next
  case (Cons x ys)
  then have q: "queue h head (x # ys)" and f: "copy_fits sp bufsize" using assms by simp_all
  from q_remove_head_ok(1)[OF q f] show ?thesis by blast
qed

lemma q_remove_tail_returns:
  assumes "queue h head xs" "xs = [] \<or> copy_fits sp bufsize"
  shows "\<exists>r. q_remove_tail h head sp bufsize = Returned r"
proof (cases xs rule: rev_cases)
  case Nil
  then show ?thesis using queue_empty_iff[OF assms(1)] by (simp add: q_remove_tail_def)
next
  case (snoc ys x)
  then have q: "queue h head (ys @ [x])" and f: "copy_fits sp bufsize" using assms by simp_all
  from q_remove_tail_ok(1)[OF q f] show ?thesis by blast
qed

lemma unat_max64: "unat (- 1 :: 64 word) = 18446744073709551615"
  by (simp add: unsigned_minus_1_eq_mask mask_eq_exp_minus_1)

text \<open>
  Claim C7 fails on the code for \<open>bufsize = 0\<close>: \<open>bufsize - 1\<close> wraps around to
  \<open>2^64 - 1\<close>, so \<open>strncpy\<close> copies the string and pads with zero bytes far past the
  buffer. On the queue \<open>["a"]\<close> with a three-byte output buffer \<open>xxx\<close>, both removals
  overwrite offsets 0, 1 and 2 (all at or beyond \<open>bufsize = 0\<close>) with \<open>a\<close>, 0, 0, run
  past the end of the buffer and do not return.
\<close>

theorem q_remove_bufsize_zero_overflow:
  "q_remove_head heap1 1 (Some ''xxx'') 0 = Overrun [CHR ''a'', CHR 0x00, CHR 0x00] \<and>
   q_remove_tail heap1 1 (Some ''xxx'') 0 = Overrun [CHR ''a'', CHR 0x00, CHR 0x00]"
  by (simp add: q_remove_head_def q_remove_tail_def list_empty_def heap1_def Let_def
      copy_out_def strncpy_def elem_str_def upt_rec unat_max64)

subsection \<open>Reversal is an involution\<close>

text \<open>
  Claim C9. \<open>q_reverse\<close> returns with the nodes in reverse order, allocates and frees
  nothing and changes no string; applied twice it gives back the original order of
  nodes and strings. A \<open>NULL\<close> handle is left alone.
\<close>

theorem q_reverse_involution:
  assumes "queue h head xs"
  shows "\<exists>h1 h2. q_reverse h head = Some h1 \<and> queue h1 head (rev xs) \<and>
           q_reverse h1 head = Some h2 \<and> queue h2 head xs \<and>
           q_strings h1 head = Some (rev (map (elem_str h) xs)) \<and>
           q_strings h2 head = Some (map (elem_str h) xs) \<and>
           live h1 = live h \<and> live h2 = live h \<and>
           e_value h1 = e_value h \<and> e_value h2 = e_value h \<and>
           str h1 = str h \<and> str h2 = str h"
proof -
  from q_reverse_correct[OF assms] obtain h1 where
    h1: "q_reverse h head = Some h1" "queue h1 head (rev xs)"
      "e_value h1 = e_value h" "str h1 = str h" "live h1 = live h" by blast
  from q_reverse_correct[OF h1(2)] obtain h2 where
    h2: "q_reverse h1 head = Some h2" "queue h2 head xs"
      "e_value h2 = e_value h1" "str h2 = str h1" "live h2 = live h1" by auto
  have f: "live h2 = live h" "e_value h2 = e_value h" "str h2 = str h"
    using h1(3,4,5) h2(3,4,5) by simp_all
  have e: "elem_str h1 = elem_str h" "elem_str h2 = elem_str h"
    by (rule elem_str_frame; fact)+
  have s: "q_strings h1 head = Some (rev (map (elem_str h) xs))"
    "q_strings h2 head = Some (map (elem_str h) xs)"
    using q_nodes_correct[OF h1(2)] q_nodes_correct[OF h2(2)] e
    by (simp_all add: q_strings_def rev_map)
  show ?thesis
    by (rule exI[of _ h1], rule exI[of _ h2], intro conjI) (fact h1 h2 s f)+
qed

theorem q_reverse_involution_witness:
  "queue heap3 1 [2, 3, 4] \<and>
   (\<exists>h1 h2. q_reverse heap3 1 = Some h1 \<and> queue h1 1 [4, 3, 2] \<and>
      q_reverse h1 1 = Some h2 \<and> queue h2 1 [2, 3, 4] \<and>
      q_strings h2 1 = Some [''b'', ''a'', ''b''])"
proof -
  have q: "queue heap3 1 [2, 3, 4]" by (simp add: queue_def heap3_def)
  have m: "elem_str heap3 2 = ''b''" "elem_str heap3 3 = ''a''" "elem_str heap3 4 = ''b''"
    by (simp_all add: elem_str_def heap3_def)
  show ?thesis using q q_reverse_involution[OF q] by (auto simp: m)
qed

lemma q_reverse_NULL: "q_reverse h 0 = Some h"
  by (simp add: q_reverse_def)

lemma key_simps [simp]:
  "key [] = []"
  "key (x # xs) = (if (of_char x :: nat) \<noteq> 0 then of_char x # key xs else [])"
  by (simp_all add: key_def)

lemma of_char_pos: "x \<noteq> y \<Longrightarrow> (of_char x :: nat) = 0 \<Longrightarrow> 0 < (of_char y :: nat)"
  by (metis of_char_eq_iff gr0I)

lemma strcmp_key: "(strcmp a b < 0 \<longleftrightarrow> key a < key b) \<and> (strcmp a b = 0 \<longleftrightarrow> key a = key b)"
proof (induction a b rule: strcmp.induct)
  case (4 x xs y ys)
  show ?case
  proof (cases "x = y")
    case True
    then show ?thesis using 4 by auto
  next
    case False
    then show ?thesis using of_char_pos[of x y] of_char_pos[of y x] by auto
  qed
qed auto

lemma strcmp_less: "strcmp a b < 0 \<longleftrightarrow> key a < key b"
  and strcmp_eq: "strcmp a b = 0 \<longleftrightarrow> key a = key b"
  using strcmp_key by blast+

lemma strcmp_le: "strcmp a b \<le> 0 \<longleftrightarrow> key a \<le> key b"
  using strcmp_less[of a b] strcmp_eq[of a b] by auto

lemma set_dup_pass: "set (dup_pass s dup xs) \<subseteq> set xs"
  by (induction s dup xs rule: dup_pass.induct) auto

lemma free_live: "live (free h p) = (if p = 0 then live h else live h - {p})"
  by (simp add: free_def)

lemma q_delete_dup_loop_end: "q_delete_dup_loop h head head safe dup = Some h"
  by (subst q_delete_dup_loop.simps) simp

lemma q_delete_dup_loop_correct:
  "queue h head (kept @ x # rest) \<Longrightarrow>
   \<exists>h'. q_delete_dup_loop h head x (hd (rest @ [head])) dup = Some h' \<and>
        queue h' head (kept @ dup_pass (elem_str h) dup (x # rest)) \<and>
        e_value h' = e_value h \<and> str h' = str h \<and>
        (0 \<notin> live h \<longrightarrow>
         live h' = live h - (\<Union>a \<in> set (x # rest) - set (dup_pass (elem_str h) dup (x # rest)).
                              {a, e_value h a}))"
proof (induction rest arbitrary: h x dup kept)
  case Nil
  have x: "x \<noteq> head" "x \<noteq> 0" using Nil by (auto simp: queue_def)
  have n: "nxt h x = head" using queue_nxt_at[OF Nil(1)] by simp
  let ?h' = "q_release_element (list_del h x) x"
  have q': "queue ?h' head kept" using queue_list_del[OF Nil(1)] by simp
  have l: "0 \<notin> live h \<Longrightarrow> live ?h' = live h - {x, e_value h x}"
    using live_release[of "list_del h x" x] x by simp
  show ?case
  proof (cases dup)
    case True
    have "q_delete_dup_loop h head x (hd ([] @ [head])) dup = Some ?h'"
      by (subst q_delete_dup_loop.simps) (simp add: x n True Let_def q_delete_dup_loop_end)
    then show ?thesis using q' l True by simp
  next
    case False
    have "q_delete_dup_loop h head x (hd ([] @ [head])) dup = Some h"
      by (subst q_delete_dup_loop.simps) (simp add: x n False q_delete_dup_loop_end)
    then show ?thesis using Nil False by simp
  qed
next
  case (Cons y rest)
  have x: "x \<noteq> head" "x \<noteq> 0" "y \<noteq> head" "x \<notin> set (y # rest)"
    using Cons.prems by (auto simp: queue_def)
  have n: "nxt h x = y" using queue_nxt_at[OF Cons.prems(1)] by simp
  let ?h' = "q_release_element (list_del h x) x"
  have q': "queue ?h' head (kept @ y # rest)" using queue_list_del[OF Cons.prems(1)] by simp
  have l: "0 \<notin> live h \<Longrightarrow> live ?h' = live h - {x, e_value h x}"
    using live_release[of "list_del h x" x] x by simp
  then have l0: "0 \<notin> live h \<Longrightarrow> 0 \<notin> live ?h'" by simp
  have e: "elem_str ?h' = elem_str h" by (rule elem_str_frame) simp_all
  have n': "nxt (list_del h x) y = hd (rest @ [head])" using queue_nxt_at[OF q'] by simp
  have qs: "queue h head ((kept @ [x]) @ y # rest)" using Cons.prems(1) by simp
  have ns: "nxt h y = hd (rest @ [head])" using queue_nxt_at[OF qs] .
  have sub: "set (dup_pass (elem_str h) b (y # rest)) \<subseteq> set (y # rest)" for b
    by (rule set_dup_pass)
  show ?case
  proof (cases "strcmp (elem_str h x) (elem_str h y) = 0 \<or> dup")
    case True
    define b where "b = (strcmp (elem_str h x) (elem_str h y) = 0)"
    from Cons.IH[OF q', of b, unfolded e] obtain h2 where
      h2: "q_delete_dup_loop ?h' head y (hd (rest @ [head])) b = Some h2"
        "queue h2 head (kept @ dup_pass (elem_str h) b (y # rest))"
        "e_value h2 = e_value h" "str h2 = str h"
        "0 \<notin> live ?h' \<longrightarrow>
         live h2 = live ?h' - (\<Union>a \<in> set (y # rest) - set (dup_pass (elem_str h) b (y # rest)).
                              {a, e_value h a})"
      unfolding list_del_frame q_release_element_frame by (elim exE conjE) (rule that)
    have d: "dup_pass (elem_str h) dup (x # y # rest) = dup_pass (elem_str h) b (y # rest)"
      using True by (auto simp: b_def)
    have r: "q_delete_dup_loop h head x (hd ((y # rest) @ [head])) dup = Some h2"
      apply (subst q_delete_dup_loop.simps)
      using True h2(1) apply (auto simp: x n Let_def n' b_def)
      done
    have lv: "0 \<notin> live h \<longrightarrow>
        live h2 = live h - (\<Union>a \<in> set (x # y # rest) - set (dup_pass (elem_str h) b (y # rest)).
                              {a, e_value h a})"
    proof
      assume z: "0 \<notin> live h"
      define D where "D = set (dup_pass (elem_str h) b (y # rest))"
      define U where "U = (\<Union>a \<in> set (y # rest) - D. {a, e_value h a})"
      have "x \<notin> D" using x(4) sub[of b] unfolding D_def by blast
      then have S: "set (x # y # rest) - D = insert x (set (y # rest) - D)" by auto
      have "live h2 = live ?h' - U" using h2(5) l0[OF z] unfolding U_def D_def by blast
      then have "live h2 = live h - {x, e_value h x} - U" unfolding l[OF z] .
      also have "\<dots> = live h - ({x, e_value h x} \<union> U)" by blast
      also have "{x, e_value h x} \<union> U = (\<Union>a \<in> set (x # y # rest) - D. {a, e_value h a})"
        unfolding S U_def by simp
      finally show "live h2 = live h - (\<Union>a \<in> set (x # y # rest) - set (dup_pass (elem_str h) b (y # rest)).
                              {a, e_value h a})"
        unfolding D_def .
    qed
    show ?thesis
      unfolding d by (rule exI[of _ h2], intro conjI) (fact r h2(2,3,4) lv)+
  next
    case False
    from Cons.IH[OF qs, of False] obtain h2 where
      h2: "q_delete_dup_loop h head y (hd (rest @ [head])) False = Some h2"
        "queue h2 head ((kept @ [x]) @ dup_pass (elem_str h) False (y # rest))"
        "e_value h2 = e_value h" "str h2 = str h"
        "0 \<notin> live h \<longrightarrow>
         live h2 = live h - (\<Union>a \<in> set (y # rest) - set (dup_pass (elem_str h) False (y # rest)).
                              {a, e_value h a})"
      by (elim exE conjE) (rule that)
    have d: "dup_pass (elem_str h) dup (x # y # rest) = x # dup_pass (elem_str h) False (y # rest)"
      using False by auto
    have r: "q_delete_dup_loop h head x (hd ((y # rest) @ [head])) dup = Some h2"
      apply (subst q_delete_dup_loop.simps)
      using False h2(1) apply (auto simp: x n ns)
      done
    have q2: "queue h2 head (kept @ x # dup_pass (elem_str h) False (y # rest))"
      using h2(2) by simp
    have lv: "0 \<notin> live h \<longrightarrow>
        live h2 = live h - (\<Union>a \<in> set (x # y # rest) - set (x # dup_pass (elem_str h) False (y # rest)).
                              {a, e_value h a})"
      using h2(5) x(4) sub[of False] by auto
    show ?thesis
      unfolding d by (rule exI[of _ h2], intro conjI) (fact r q2 h2(3,4) lv)+
  qed
qed

lemma q_delete_dup_correct:
  assumes "queue h head xs"
  shows "\<exists>h'. q_delete_dup h head = Some (h', True) \<and>
        queue h' head (dup_pass (elem_str h) False xs) \<and>
        e_value h' = e_value h \<and> str h' = str h \<and>
        (0 \<notin> live h \<longrightarrow>
         live h' = live h - (\<Union>a \<in> set xs - set (dup_pass (elem_str h) False xs). {a, e_value h a})) \<and>
        (length xs \<le> 1 \<longrightarrow> h' = h)"
proof (cases "list_empty h head \<or> list_is_singular h head")
  case True
  then have "length xs \<le> 1"
    using queue_empty_iff[OF assms] queue_singular_iff[OF assms] by auto
  then have "dup_pass (elem_str h) False xs = xs" by (cases xs; cases "tl xs") auto
  then show ?thesis using True assms by (simp add: q_delete_dup_def queue_def)
next
  case False
  then have len: "\<not> length xs \<le> 1"
    using queue_empty_iff[OF assms] queue_singular_iff[OF assms] by (cases xs) auto
  then obtain x rest where xs: "xs = x # rest" by (cases xs) auto
  have h0: "head \<noteq> 0" using assms by (simp add: queue_def)
  have q: "queue h head ([] @ x # rest)" using assms xs by simp
  have n: "nxt h head = x" using queue_nxt_head[OF assms] xs by simp
  have n2: "nxt h x = hd (rest @ [head])" using q by (rule queue_nxt_at)
  from q_delete_dup_loop_correct[OF q, of False] show ?thesis
    using False h0 len unfolding xs[symmetric] by (auto simp: q_delete_dup_def n n2)
qed

lemma ascending_key: "ascending ss = sorted (map key ss)"
  by (simp add: ascending_def sorted_wrt_map strcmp_le)

lemma strictly_ascending_key: "strictly_ascending ss = sorted_wrt (<) (map key ss)"
  by (simp add: strictly_ascending_def sorted_wrt_map strcmp_less)

lemma keep_at_False: "keep_at False ss = no_equal_neighbour ss"
  by (rule ext) (auto simp: keep_at_def no_equal_neighbour_def)

lemma keep_at_Suc:
  "keep_at dup (a # b # ss) (Suc i) = keep_at (strcmp a b = 0) (b # ss) i"
  by (cases i) (simp_all add: keep_at_def)

lemma indices_Cons:
  "map (\<lambda>i. (x # xs) ! i) (filter P [0..<Suc (length xs)]) =
     (if P 0 then [x] else []) @ map (\<lambda>i. xs ! i) (filter (\<lambda>i. P (Suc i)) [0..<length xs])"
proof -
  have "[0..<Suc (length xs)] = 0 # map Suc [0..<length xs]"
    by (simp add: upt_conv_Cons map_Suc_upt del: upt_Suc)
  then show ?thesis by (simp add: filter_map comp_def del: upt_Suc)
qed

lemma dup_pass_keep_at:
  "dup_pass s dup xs = map (\<lambda>i. xs ! i) (filter (keep_at dup (map s xs)) [0..<length xs])"
proof (induction s dup xs rule: dup_pass.induct)
  case (1 s dup)
  then show ?case by simp
next
  case (2 s dup x)
  then show ?case by (simp add: keep_at_def)
next
  case (3 s dup x y zs)
  let ?b = "strcmp (s x) (s y) = 0"
  have k: "(\<lambda>i. keep_at dup (map s (x # y # zs)) (Suc i)) = keep_at ?b (map s (y # zs))"
    by (rule ext) (simp add: keep_at_Suc)
  have r: "dup_pass s ?b (y # zs)
      = map (\<lambda>i. (y # zs) ! i) (filter (keep_at ?b (map s (y # zs))) [0..<length (y # zs)])"
    using 3 by (cases ?b; cases dup) simp_all
  have 0: "keep_at dup (map s (x # y # zs)) 0 = (\<not> dup \<and> \<not> ?b)"
    by (simp add: keep_at_def)
  have d: "dup_pass s dup (x # y # zs) = (if \<not> dup \<and> \<not> ?b then [x] else []) @ dup_pass s ?b (y # zs)"
    by simp
  show ?case
    unfolding d r
    using indices_Cons[of x "y # zs" "keep_at dup (map s (x # y # zs))"]
    by (simp only: k 0 length_Cons)
qed

lemma dup_pass_survivors: "dup_pass s False xs = survivors s xs"
  by (simp add: dup_pass_keep_at keep_at_False survivors_def)

lemma dup_pass_strict:
  "sorted (map (\<lambda>a. key (s a)) xs) \<Longrightarrow> sorted_wrt (<) (map (\<lambda>a. key (s a)) (dup_pass s dup xs))"
proof (induction s dup xs rule: dup_pass.induct)
  case (3 s dup x y zs)
  have sub: "set (dup_pass s False (y # zs)) \<subseteq> set (y # zs)" by (rule set_dup_pass)
  have le: "\<forall>z \<in> set (y # zs). key (s y) \<le> key (s z)" "key (s x) \<le> key (s y)"
    using 3(4) by auto
  have t: "sorted (map (\<lambda>a. key (s a)) (y # zs))" using 3(4) by simp
  show ?case
  proof (cases "strcmp (s x) (s y) = 0")
    case True
    then show ?thesis using 3(1)[OF True t] by simp
  next
    case False
    then have "key (s x) < key (s y)" using le(2) by (simp add: strcmp_eq)
    then have "\<forall>z \<in> set (dup_pass s False (y # zs)). key (s x) < key (s z)"
      using le(1) sub by fastforce
    then show ?thesis using False 3(2)[OF False _ t] 3(3)[OF False _ t] by (cases dup) auto
  qed
qed auto

lemma no_equal_neighbour_unique:
  assumes "ascending ss" "i < length ss"
  shows "no_equal_neighbour ss i = unique_at ss i"
proof
  assume u: "unique_at ss i"
  show "no_equal_neighbour ss i"
    unfolding no_equal_neighbour_def
  proof (intro conjI notI)
    assume "0 < i \<and> strcmp (ss ! (i - 1)) (ss ! i) = 0"
    then show False using u assms(2) by (auto simp: unique_at_def)
  next
    assume a: "Suc i < length ss \<and> strcmp (ss ! i) (ss ! Suc i) = 0"
    then have "strcmp (ss ! Suc i) (ss ! i) = 0" by (simp add: strcmp_eq)
    then show False using u a by (auto simp: unique_at_def)
  qed
next
  assume n: "no_equal_neighbour ss i"
  have s: "sorted (map key ss)" using assms(1) by (simp add: ascending_key)
  have mono: "a \<le> b \<Longrightarrow> b < length ss \<Longrightarrow> key (ss ! a) \<le> key (ss ! b)" for a b
    using sorted_nth_mono[OF s, of a b] by simp
  show "unique_at ss i"
    unfolding unique_at_def
  proof (intro allI impI notI)
    fix j assume j: "j < length ss" "j \<noteq> i" and e: "strcmp (ss ! j) (ss ! i) = 0"
    then have k: "key (ss ! j) = key (ss ! i)" by (simp add: strcmp_eq)
    show False
    proof (cases "j < i")
      case True
      then have "key (ss ! j) \<le> key (ss ! (i - 1))" "key (ss ! (i - 1)) \<le> key (ss ! i)"
        using mono[of j "i - 1"] mono[of "i - 1" i] assms(2) by simp_all
      then have "key (ss ! (i - 1)) = key (ss ! i)" using k by simp
      then show False using n True by (simp add: no_equal_neighbour_def strcmp_eq)
    next
      case False
      then have "Suc i \<le> j" using j(2) by simp
      then have "key (ss ! i) \<le> key (ss ! Suc i)" "key (ss ! Suc i) \<le> key (ss ! j)"
        using mono[of i "Suc i"] mono[of "Suc i" j] j(1) by simp_all
      then have "key (ss ! i) = key (ss ! Suc i)" using k by simp
      then show False using n \<open>Suc i \<le> j\<close> j(1) by (simp add: no_equal_neighbour_def strcmp_eq)
    qed
  qed
qed

lemma survivors_unique:
  assumes "ascending (map s xs)"
  shows "survivors s xs = map (\<lambda>i. xs ! i) (filter (unique_at (map s xs)) [0..<length xs])"
proof -
  have "filter (no_equal_neighbour (map s xs)) [0..<length xs]
      = filter (unique_at (map s xs)) [0..<length xs]"
    by (rule filter_cong) (simp_all add: no_equal_neighbour_unique[OF assms])
  then show ?thesis by (simp add: survivors_def)
qed

lemma q_delete_dup_false: "q_delete_dup h head = Some (h', False) \<Longrightarrow> head = 0"
  by (auto simp: q_delete_dup_def split: if_splits Option.bind_splits)

text \<open>
  Claim C10. On every well-formed queue, sorted or not, \<open>q_delete_dup\<close> returns true
  and keeps exactly the nodes that have no equal immediate neighbour in the original
  sequence, in their order; every other node (a member of a run of two or more equal
  consecutive strings) is unlinked and freed with its string.
\<close>

theorem q_delete_dup_single_pass:
  assumes "queue h head xs" "0 \<notin> live h"
  shows "\<exists>h'. q_delete_dup h head = Some (h', True) \<and>
           queue h' head (survivors (elem_str h) xs) \<and>
           e_value h' = e_value h \<and> str h' = str h \<and>
           live h' = live h - (\<Union>a \<in> set xs - set (survivors (elem_str h) xs). {a, e_value h a})"
  using q_delete_dup_correct[OF assms(1)] assms(2) unfolding dup_pass_survivors by blast

lemma survivors_abba: "survivors (elem_str heap_abba) [2, 3, 4, 5] = [2, 5]"
  by (simp add: survivors_def no_equal_neighbour_def elem_str_def heap_abba_def upt_rec)

lemma survivors_bab: "survivors (elem_str heap3) [2, 3, 4] = [2, 3, 4]"
  by (simp add: survivors_def no_equal_neighbour_def elem_str_def heap3_def upt_rec)

theorem q_delete_dup_single_pass_witness:
  "queue heap_abba 1 [2, 3, 4, 5] \<and> 0 \<notin> live heap_abba \<and>
   (\<exists>h'. q_delete_dup heap_abba 1 = Some (h', True) \<and> queue h' 1 [2, 5] \<and>
      map (elem_str h') [2, 5] = [''a'', ''a'']) \<and>
   queue heap3 1 [2, 3, 4] \<and> 0 \<notin> live heap3 \<and>
   (\<exists>h'. q_delete_dup heap3 1 = Some (h', True) \<and> queue h' 1 [2, 3, 4] \<and>
      map (elem_str h') [2, 3, 4] = [''b'', ''a'', ''b''])"
proof -
  have q1: "queue heap_abba 1 [2, 3, 4, 5]" by (simp add: queue_def heap_abba_def)
  have l1: "0 \<notin> live heap_abba" by (simp add: heap_abba_def)
  have q2: "queue heap3 1 [2, 3, 4]" by (simp add: queue_def heap3_def)
  have l2: "0 \<notin> live heap3" by (simp add: heap3_def)
  have s1: "str heap_abba (e_value heap_abba 2) = ''a''" "str heap_abba (e_value heap_abba 5) = ''a''"
    by (simp_all add: heap_abba_def)
  have s2: "str heap3 (e_value heap3 2) = ''b''" "str heap3 (e_value heap3 3) = ''a''"
    "str heap3 (e_value heap3 4) = ''b''"
    by (simp_all add: heap3_def)
  have e1: "\<exists>h'. q_delete_dup heap_abba 1 = Some (h', True) \<and> queue h' 1 [2, 5] \<and>
      map (elem_str h') [2, 5] = [''a'', ''a'']"
    using q_delete_dup_single_pass[OF q1 l1] unfolding survivors_abba
    by (auto simp: elem_str_def s1)
  have e2: "\<exists>h'. q_delete_dup heap3 1 = Some (h', True) \<and> queue h' 1 [2, 3, 4] \<and>
      map (elem_str h') [2, 3, 4] = [''b'', ''a'', ''b'']"
    using q_delete_dup_single_pass[OF q2 l2] unfolding survivors_bab
    by (auto simp: elem_str_def s2)
  show ?thesis by (intro conjI) (fact q1 l1 q2 l2 e1 e2)+
qed

text \<open>
  Claim C6. On a queue whose strings are ascending, \<open>q_delete_dup\<close> returns true and
  keeps exactly the nodes whose string occurs once (equivalently: the nodes with no
  equal neighbour); the strings left are strictly ascending; the deleted nodes and
  their strings are freed. A queue of at most one element is left as it is. The
  function returns false only for a \<open>NULL\<close> handle.
\<close>

theorem q_delete_dup_sorted:
  assumes "queue h head xs" "0 \<notin> live h" "ascending (map (elem_str h) xs)"
  shows "(\<exists>h' ys. q_delete_dup h head = Some (h', True) \<and> queue h' head ys \<and>
           ys = map (\<lambda>i. xs ! i) (filter (unique_at (map (elem_str h) xs)) [0..<length xs]) \<and>
           ys = survivors (elem_str h) xs \<and>
           strictly_ascending (map (elem_str h') ys) \<and>
           e_value h' = e_value h \<and> str h' = str h \<and>
           live h' = live h - (\<Union>a \<in> set xs - set ys. {a, e_value h a}) \<and>
           (length xs \<le> 1 \<longrightarrow> h' = h)) \<and>
         q_delete_dup h 0 = Some (h, False) \<and>
         (\<forall>h'. q_delete_dup h head \<noteq> Some (h', False))"
proof (intro conjI)
  from q_delete_dup_correct[OF assms(1)] assms(2) obtain h' where
    h': "q_delete_dup h head = Some (h', True)"
      "queue h' head (survivors (elem_str h) xs)"
      "e_value h' = e_value h" "str h' = str h"
      "live h' = live h - (\<Union>a \<in> set xs - set (survivors (elem_str h) xs). {a, e_value h a})"
      "length xs \<le> 1 \<longrightarrow> h' = h"
    unfolding dup_pass_survivors by blast
  have e: "elem_str h' = elem_str h" by (rule elem_str_frame; fact)
  have "sorted (map (\<lambda>a. key (elem_str h a)) xs)"
    using assms(3) by (simp add: ascending_key comp_def)
  from dup_pass_strict[OF this, of False]
  have s: "strictly_ascending (map (elem_str h') (survivors (elem_str h) xs))"
    by (simp add: strictly_ascending_key e dup_pass_survivors comp_def)
  show "\<exists>h' ys. q_delete_dup h head = Some (h', True) \<and> queue h' head ys \<and>
           ys = map (\<lambda>i. xs ! i) (filter (unique_at (map (elem_str h) xs)) [0..<length xs]) \<and>
           ys = survivors (elem_str h) xs \<and>
           strictly_ascending (map (elem_str h') ys) \<and>
           e_value h' = e_value h \<and> str h' = str h \<and>
           live h' = live h - (\<Union>a \<in> set xs - set ys. {a, e_value h a}) \<and>
           (length xs \<le> 1 \<longrightarrow> h' = h)"
    apply (rule exI[of _ h'], rule exI[of _ "survivors (elem_str h) xs"])
    apply (intro conjI)
    apply (fact h' s survivors_unique[OF assms(3)] refl)+
    done
  show "q_delete_dup h 0 = Some (h, False)" by (simp add: q_delete_dup_def)
  show "\<forall>h'. q_delete_dup h head \<noteq> Some (h', False)"
    using assms(1) q_delete_dup_false[of h head] by (auto simp: queue_def)
qed

lemma survivors_abbbc: "survivors (elem_str heap_abbbc) [2, 3, 4, 5, 6] = [2, 6]"
  by (simp add: survivors_def no_equal_neighbour_def elem_str_def heap_abbbc_def upt_rec)

lemma survivors_abc: "survivors (elem_str heap_abc) [2, 3, 4] = [2, 3, 4]"
  by (simp add: survivors_def no_equal_neighbour_def elem_str_def heap_abc_def upt_rec)

theorem q_delete_dup_sorted_witness:
  "queue heap_abbbc 1 [2, 3, 4, 5, 6] \<and> 0 \<notin> live heap_abbbc \<and>
   ascending (map (elem_str heap_abbbc) [2, 3, 4, 5, 6]) \<and>
   map (elem_str heap_abbbc) [2, 3, 4, 5, 6] = [''a'', ''b'', ''b'', ''b'', ''c''] \<and>
   (\<exists>h'. q_delete_dup heap_abbbc 1 = Some (h', True) \<and> queue h' 1 [2, 6] \<and>
      map (elem_str h') [2, 6] = [''a'', ''c'']) \<and>
   queue heap_abc 1 [2, 3, 4] \<and> 0 \<notin> live heap_abc \<and>
   ascending (map (elem_str heap_abc) [2, 3, 4]) \<and>
   (\<exists>h'. q_delete_dup heap_abc 1 = Some (h', True) \<and> queue h' 1 [2, 3, 4] \<and>
      map (elem_str h') [2, 3, 4] = [''a'', ''b'', ''c''] \<and> live h' = live heap_abc)"
proof -
  have q1: "queue heap_abbbc 1 [2, 3, 4, 5, 6]" by (simp add: queue_def heap_abbbc_def)
  have l1: "0 \<notin> live heap_abbbc" by (simp add: heap_abbbc_def)
  have m1: "map (elem_str heap_abbbc) [2, 3, 4, 5, 6] = [''a'', ''b'', ''b'', ''b'', ''c'']"
    by (simp add: elem_str_def heap_abbbc_def)
  have a1: "ascending (map (elem_str heap_abbbc) [2, 3, 4, 5, 6])"
    unfolding m1 by (simp add: ascending_def)
  have q2: "queue heap_abc 1 [2, 3, 4]" by (simp add: queue_def heap_abc_def)
  have l2: "0 \<notin> live heap_abc" by (simp add: heap_abc_def)
  have m2: "map (elem_str heap_abc) [2, 3, 4] = [''a'', ''b'', ''c'']"
    by (simp add: elem_str_def heap_abc_def)
  have a2: "ascending (map (elem_str heap_abc) [2, 3, 4])"
    unfolding m2 by (simp add: ascending_def)
  have s1: "str heap_abbbc (e_value heap_abbbc 2) = ''a''" "str heap_abbbc (e_value heap_abbbc 6) = ''c''"
    by (simp_all add: heap_abbbc_def)
  from q_delete_dup_sorted[OF q1 l1 a1, THEN conjunct1] obtain h1 ys where h1:
    "q_delete_dup heap_abbbc 1 = Some (h1, True)" "queue h1 1 ys"
    "ys = survivors (elem_str heap_abbbc) [2, 3, 4, 5, 6]"
    "e_value h1 = e_value heap_abbbc" "str h1 = str heap_abbbc"
    "live h1 = live heap_abbbc - (\<Union>a \<in> set [2, 3, 4, 5, 6] - set ys. {a, e_value heap_abbbc a})"
    by blast
  have y1: "ys = [2, 6]" using h1(3) survivors_abbbc by simp
  have e1: "\<exists>h'. q_delete_dup heap_abbbc 1 = Some (h', True) \<and> queue h' 1 [2, 6] \<and>
      map (elem_str h') [2, 6] = [''a'', ''c'']"
    apply (rule exI[of _ h1])
    using h1(1,2) unfolding y1 apply (simp add: elem_str_def h1(4,5) s1)
    done
  from q_delete_dup_sorted[OF q2 l2 a2, THEN conjunct1] obtain h2 zs where h2:
    "q_delete_dup heap_abc 1 = Some (h2, True)" "queue h2 1 zs"
    "zs = survivors (elem_str heap_abc) [2, 3, 4]"
    "e_value h2 = e_value heap_abc" "str h2 = str heap_abc"
    "live h2 = live heap_abc - (\<Union>a \<in> set [2, 3, 4] - set zs. {a, e_value heap_abc a})"
    by blast
  have y2: "zs = [2, 3, 4]" using h2(3) survivors_abc by simp
  have e: "elem_str h2 = elem_str heap_abc" by (rule elem_str_frame; fact)
  have e2: "\<exists>h'. q_delete_dup heap_abc 1 = Some (h', True) \<and> queue h' 1 [2, 3, 4] \<and>
      map (elem_str h') [2, 3, 4] = [''a'', ''b'', ''c''] \<and> live h' = live heap_abc"
    apply (rule exI[of _ h2])
    using h2(1,2,6) m2 unfolding y2 e apply simp
    done
  show ?thesis by (intro conjI) (fact q1 l1 a1 m1 e1 q2 l2 a2 e2)+
qed

declare msort_nodes.simps [simp del]

lemma merge_nodes_Nil2 [simp]: "merge_nodes s xs [] = xs"
  by (cases xs) auto

lemma mset_merge_nodes: "mset (merge_nodes s xs ys) = mset xs + mset ys"
  by (induction s xs ys rule: merge_nodes.induct) auto

lemma set_merge_nodes: "set (merge_nodes s xs ys) = set xs \<union> set ys"
  by (induction s xs ys rule: merge_nodes.induct) auto

lemma mset_msort_nodes: "mset (msort_nodes s xs) = mset xs"
proof (induction s xs rule: msort_nodes.induct)
  case (1 s xs)
  show ?case
  proof (cases "length xs \<le> 1")
    case True
    then show ?thesis by (subst msort_nodes.simps) simp
  next
    case False
    have "mset (msort_nodes s xs)
        = mset (take (length xs div 2) xs) + mset (drop (length xs div 2) xs)"
      using False 1 by (subst msort_nodes.simps) (simp add: mset_merge_nodes)
    also have "\<dots> = mset (take (length xs div 2) xs @ drop (length xs div 2) xs)"
      by (simp only: mset_append)
    finally show ?thesis by simp
  qed
qed

lemma set_msort_nodes: "set (msort_nodes s xs) = set xs"
  using mset_msort_nodes[of s xs] by (metis set_mset_mset)

lemma distinct_msort_nodes: "distinct (msort_nodes s xs) = distinct xs"
  using mset_msort_nodes[of s xs] by (metis mset_eq_imp_distinct_iff)

lemma length_msort_nodes: "length (msort_nodes s xs) = length xs"
  using mset_msort_nodes[of s xs] by (metis size_mset)

lemma sorted_merge_nodes:
  "sorted (map (\<lambda>a. key (s a)) xs) \<Longrightarrow> sorted (map (\<lambda>a. key (s a)) ys) \<Longrightarrow>
   sorted (map (\<lambda>a. key (s a)) (merge_nodes s xs ys))"
proof (induction s xs ys rule: merge_nodes.induct)
  case (3 s x xs y ys)
  show ?case
  proof (cases "strcmp (s x) (s y) < 0")
    case True
    then have "key (s x) < key (s y)" by (simp add: strcmp_less)
    then have "\<forall>z \<in> set (xs @ y # ys). key (s x) \<le> key (s z)"
      using 3(3,4) by fastforce
    then show ?thesis using True 3 by (simp add: set_merge_nodes)
  next
    case False
    then have "key (s y) \<le> key (s x)" by (simp add: strcmp_less)
    then have "\<forall>z \<in> set (x # xs @ ys). key (s y) \<le> key (s z)"
      using 3(3,4) by fastforce
    then show ?thesis using False 3 by (simp add: set_merge_nodes)
  qed
qed auto

lemma sorted_msort_nodes: "sorted (map (\<lambda>a. key (s a)) (msort_nodes s xs))"
proof (induction s xs rule: msort_nodes.induct)
  case (1 s xs)
  show ?case
  proof (cases "length xs \<le> 1")
    case True
    then have "xs = [] \<or> (\<exists>x. xs = [x])" by (cases xs) auto
    then show ?thesis by (subst msort_nodes.simps) auto
  next
    case False
    then show ?thesis
      using 1 by (subst msort_nodes.simps) (simp add: sorted_merge_nodes)
  qed
qed

lemma filter_merge_nodes:
  "sorted (map (\<lambda>a. key (s a)) xs) \<Longrightarrow> sorted (map (\<lambda>a. key (s a)) ys) \<Longrightarrow>
   filter (\<lambda>a. key (s a) = k) (merge_nodes s xs ys)
     = filter (\<lambda>a. key (s a) = k) ys @ filter (\<lambda>a. key (s a) = k) xs"
proof (induction s xs ys rule: merge_nodes.induct)
  case (3 s x xs y ys)
  show ?case
  proof (cases "strcmp (s x) (s y) < 0")
    case True
    then have lt: "key (s x) < key (s y)" by (simp add: strcmp_less)
    have ih: "filter (\<lambda>a. key (s a) = k) (merge_nodes s xs (y # ys))
        = filter (\<lambda>a. key (s a) = k) (y # ys) @ filter (\<lambda>a. key (s a) = k) xs"
      using 3(1)[OF True] 3(3,4) by simp
    show ?thesis
    proof (cases "key (s x) = k")
      case k: True
      have "\<forall>z \<in> set (y # ys). key (s z) \<noteq> k"
        using lt 3(4) k by fastforce
      then have "filter (\<lambda>a. key (s a) = k) (y # ys) = []"
        by (simp only: filter_empty_conv)
      then show ?thesis using True ih k by simp
    next
      case False
      then show ?thesis using True ih by simp
    qed
  next
    case False
    have ih: "filter (\<lambda>a. key (s a) = k) (merge_nodes s (x # xs) ys)
        = filter (\<lambda>a. key (s a) = k) ys @ filter (\<lambda>a. key (s a) = k) (x # xs)"
      using 3(2)[OF False] 3(3,4) by simp
    then show ?thesis using False by simp
  qed
qed auto

lemma filter_msort_nodes:
  "filter (\<lambda>a. key (s a) = k) (msort_nodes s xs) = rev (filter (\<lambda>a. key (s a) = k) xs)"
proof (induction s xs rule: msort_nodes.induct)
  case (1 s xs)
  show ?case
  proof (cases "length xs \<le> 1")
    case True
    then have "xs = [] \<or> (\<exists>x. xs = [x])" by (cases xs) auto
    then show ?thesis by (subst msort_nodes.simps) auto
  next
    case False
    let ?m = "length xs div 2"
    have "filter (\<lambda>a. key (s a) = k) (msort_nodes s xs)
        = rev (filter (\<lambda>a. key (s a) = k) (drop ?m xs)) @ rev (filter (\<lambda>a. key (s a) = k) (take ?m xs))"
      using False 1 by (subst msort_nodes.simps) (simp add: filter_merge_nodes sorted_msort_nodes)
    also have "\<dots> = rev (filter (\<lambda>a. key (s a) = k) (take ?m xs @ drop ?m xs))"
      by (simp only: filter_append rev_append)
    finally show ?thesis by simp
  qed
qed

lemma mergeTwoLists_merge_from: "mergeTwoLists h l1 l2 = merge_from h l1 l2 0 Local_head"
  by (simp add: mergeTwoLists_def merge_from_def)

lemma merge_from_stop:
  "l1 = 0 \<or> l2 = 0 \<Longrightarrow> merge_from h l1 l2 head ptr = Some (store ptr (l1 OR l2) (h, head))"
  unfolding merge_from_def by (subst mergeTwoLists_loop.simps) auto

lemma merge_from_left:
  "l1 \<noteq> 0 \<Longrightarrow> l2 \<noteq> 0 \<Longrightarrow> strcmp (elem_str h l1) (elem_str h l2) < 0 \<Longrightarrow>
   merge_from h l1 l2 head ptr =
     merge_from (fst (store ptr l1 (h, head))) (nxt (fst (store ptr l1 (h, head))) l1) l2
       (snd (store ptr l1 (h, head))) (Next_of l1)"
  unfolding merge_from_def by (subst mergeTwoLists_loop.simps) (simp add: Let_def)

lemma merge_from_right:
  "l1 \<noteq> 0 \<Longrightarrow> l2 \<noteq> 0 \<Longrightarrow> \<not> strcmp (elem_str h l1) (elem_str h l2) < 0 \<Longrightarrow>
   merge_from h l1 l2 head ptr =
     merge_from (fst (store ptr l2 (h, head))) l1 (nxt (fst (store ptr l2 (h, head))) l2)
       (snd (store ptr l2 (h, head))) (Next_of l2)"
  unfolding merge_from_def by (subst mergeTwoLists_loop.simps) (simp add: Let_def)

lemma store_frame [simp]:
  "prv (fst (store ptr v (h, head))) = prv h"
  "e_value (fst (store ptr v (h, head))) = e_value h"
  "str (fst (store ptr v (h, head))) = str h"
  "live (fst (store ptr v (h, head))) = live h"
  by (simp_all add: store_def split: loc.splits)

lemma store_nxt:
  "nxt (fst (store ptr v (h, head))) b = (if ptr = Next_of b then v else nxt h b)"
  by (auto simp: store_def split: loc.splits)

lemma store_head:
  "snd (store ptr v (h, head)) = (if ptr = Local_head then v else head)"
  by (auto simp: store_def split: loc.splits)

lemma elem_str_store [simp]: "elem_str (fst (store ptr v (h, head))) = elem_str h"
  by (rule elem_str_frame) simp_all

lemma linked_cong:
  "(\<And>a. a \<in> set (butlast zs) \<Longrightarrow> f a = g a) \<Longrightarrow> linked f zs = linked g zs"
  by (induction f zs rule: linked.induct) auto

lemma linked_store:
  assumes "linked (nxt h) (zs @ [0])" "\<forall>a. ptr = Next_of a \<longrightarrow> a \<notin> set zs"
  shows "linked (nxt (fst (store ptr v (h, head)))) (zs @ [0])"
proof -
  have "linked (nxt (fst (store ptr v (h, head)))) (zs @ [0]) = linked (nxt h) (zs @ [0])"
    by (rule linked_cong) (use assms(2) in \<open>auto simp: store_nxt\<close>)
  then show ?thesis using assms(1) by simp
qed

lemma merge_from_correct:
  "linked (nxt h) (xs @ [0]) \<Longrightarrow> linked (nxt h) (ys @ [0]) \<Longrightarrow> distinct (xs @ ys) \<Longrightarrow>
   0 \<notin> set (xs @ ys) \<Longrightarrow> (\<forall>a. ptr = Next_of a \<longrightarrow> a \<notin> set (xs @ ys)) \<Longrightarrow> s = elem_str h \<Longrightarrow>
   \<exists>h' head'. merge_from h (hd (xs @ [0])) (hd (ys @ [0])) head ptr = Some (h', head') \<and>
      linked (nxt h') (merge_nodes s xs ys @ [0]) \<and>
      (ptr = Local_head \<longrightarrow> head' = hd (merge_nodes s xs ys @ [0])) \<and>
      (\<forall>a. ptr = Next_of a \<longrightarrow> head' = head \<and> nxt h' a = hd (merge_nodes s xs ys @ [0])) \<and>
      (\<forall>b. b \<notin> set (xs @ ys) \<longrightarrow> ptr \<noteq> Next_of b \<longrightarrow> nxt h' b = nxt h b) \<and>
      prv h' = prv h \<and> e_value h' = e_value h \<and> str h' = str h \<and> live h' = live h"
proof (induction s xs ys arbitrary: h head ptr rule: merge_nodes.induct)
  case (1 s ys)
  let ?r = "store ptr (hd (ys @ [0])) (h, head)"
  have m: "merge_from h (hd ([] @ [0])) (hd (ys @ [0])) head ptr = Some (fst ?r, snd ?r)"
    by (simp add: merge_from_stop)
  have l: "linked (nxt (fst ?r)) (ys @ [0])"
    by (rule linked_store) (use 1 in auto)
  show ?case
  proof (intro exI conjI)
    show "merge_from h (hd ([] @ [0])) (hd (ys @ [0])) head ptr = Some (fst ?r, snd ?r)"
      by (rule m)
    show "linked (nxt (fst ?r)) (merge_nodes s [] ys @ [0])" using l by simp
  qed (simp_all add: store_nxt store_head)
next
  case (2 s x xs)
  let ?r = "store ptr x (h, head)"
  have m: "merge_from h (hd ((x # xs) @ [0])) (hd ([] @ [0])) head ptr = Some (fst ?r, snd ?r)"
    by (simp add: merge_from_stop)
  have l: "linked (nxt (fst ?r)) ((x # xs) @ [0])"
    by (rule linked_store) (use 2 in auto)
  show ?case
  proof (intro exI conjI)
    show "merge_from h (hd ((x # xs) @ [0])) (hd ([] @ [0])) head ptr = Some (fst ?r, snd ?r)"
      by (rule m)
    show "linked (nxt (fst ?r)) (merge_nodes s (x # xs) [] @ [0])" using l by simp
  qed (simp_all add: store_nxt store_head)
next
  case (3 s x xs y ys)
  have s: "s = elem_str h" by fact
  have xy: "x \<noteq> 0" "y \<noteq> 0" "x \<noteq> y" using 3(5,6) by auto
  have px: "ptr \<noteq> Next_of x" "ptr \<noteq> Next_of y" using 3(7) by auto
  show ?case
  proof (cases "strcmp (s x) (s y) < 0")
    case True
    let ?r = "store ptr x (h, head)"
    let ?h1 = "fst ?r"
    have nx: "nxt ?h1 x = hd (xs @ [0])"
      using 3(3) px by (simp add: store_nxt linked_Cons)
    have c1: "linked (nxt ?h1) (xs @ [0])"
      by (rule linked_store) (use 3(3,7) in \<open>auto simp: linked_Cons\<close>)
    have c2: "linked (nxt ?h1) ((y # ys) @ [0])"
      by (rule linked_store) (use 3(4,7) in auto)
    have d: "distinct (xs @ y # ys)" "0 \<notin> set (xs @ y # ys)"
      "\<forall>a. Next_of x = Next_of a \<longrightarrow> a \<notin> set (xs @ y # ys)"
      using 3(5,6) by auto
    have e: "s = elem_str ?h1" using s by simp
    from 3(1)[OF True c1 c2 d e, of "snd ?r"] obtain h' head' where
      r: "merge_from ?h1 (hd (xs @ [0])) (hd ((y # ys) @ [0])) (snd ?r) (Next_of x) = Some (h', head')"
        "linked (nxt h') (merge_nodes s xs (y # ys) @ [0])"
        "head' = snd ?r" "nxt h' x = hd (merge_nodes s xs (y # ys) @ [0])"
        "\<forall>b. b \<notin> set (xs @ y # ys) \<longrightarrow> Next_of x \<noteq> Next_of b \<longrightarrow> nxt h' b = nxt ?h1 b"
        "prv h' = prv ?h1" "e_value h' = e_value ?h1" "str h' = str ?h1" "live h' = live ?h1"
      by auto
    have m: "merge_from h (hd ((x # xs) @ [0])) (hd ((y # ys) @ [0])) head ptr = Some (h', head')"
      using merge_from_left[of x y h head ptr] xy True r(1) nx s by simp
    have M: "merge_nodes s (x # xs) (y # ys) = x # merge_nodes s xs (y # ys)"
      using True by simp
    have l: "linked (nxt h') (merge_nodes s (x # xs) (y # ys) @ [0])"
      unfolding M using r(2,4) by (simp add: linked_Cons)
    have f: "\<forall>b. b \<notin> set ((x # xs) @ y # ys) \<longrightarrow> ptr \<noteq> Next_of b \<longrightarrow> nxt h' b = nxt h b"
      using r(5) by (auto simp: store_nxt)
    have p: "\<forall>a. ptr = Next_of a \<longrightarrow> head' = head \<and> nxt h' a = hd (merge_nodes s (x # xs) (y # ys) @ [0])"
      unfolding M using r(3,5) 3(7) by (auto simp: store_nxt store_head)
    have q: "ptr = Local_head \<longrightarrow> head' = hd (merge_nodes s (x # xs) (y # ys) @ [0])"
      unfolding M using r(3) by (simp add: store_head)
    show ?thesis
      apply (rule exI[of _ h'], rule exI[of _ head'])
      using m l f p q r(6-9) apply simp
      done
  next
    case False
    let ?r = "store ptr y (h, head)"
    let ?h1 = "fst ?r"
    have ny: "nxt ?h1 y = hd (ys @ [0])"
      using 3(4) px by (simp add: store_nxt linked_Cons)
    have c1: "linked (nxt ?h1) ((x # xs) @ [0])"
      by (rule linked_store) (use 3(3,7) in auto)
    have c2: "linked (nxt ?h1) (ys @ [0])"
      by (rule linked_store) (use 3(4,7) in \<open>auto simp: linked_Cons\<close>)
    have d: "distinct ((x # xs) @ ys)" "0 \<notin> set ((x # xs) @ ys)"
      "\<forall>a. Next_of y = Next_of a \<longrightarrow> a \<notin> set ((x # xs) @ ys)"
      using 3(5,6) by auto
    have e: "s = elem_str ?h1" using s by simp
    from 3(2)[OF False c1 c2 d e, of "snd ?r"] obtain h' head' where
      r: "merge_from ?h1 (hd ((x # xs) @ [0])) (hd (ys @ [0])) (snd ?r) (Next_of y) = Some (h', head')"
        "linked (nxt h') (merge_nodes s (x # xs) ys @ [0])"
        "head' = snd ?r" "nxt h' y = hd (merge_nodes s (x # xs) ys @ [0])"
        "\<forall>b. b \<notin> set ((x # xs) @ ys) \<longrightarrow> Next_of y \<noteq> Next_of b \<longrightarrow> nxt h' b = nxt ?h1 b"
        "prv h' = prv ?h1" "e_value h' = e_value ?h1" "str h' = str ?h1" "live h' = live ?h1"
      by auto
    have m: "merge_from h (hd ((x # xs) @ [0])) (hd ((y # ys) @ [0])) head ptr = Some (h', head')"
      using merge_from_right[of x y h head ptr] xy False r(1) ny s by simp
    have M: "merge_nodes s (x # xs) (y # ys) = y # merge_nodes s (x # xs) ys"
      using False by simp
    have l: "linked (nxt h') (merge_nodes s (x # xs) (y # ys) @ [0])"
      unfolding M using r(2,4) by (simp add: linked_Cons)
    have f: "\<forall>b. b \<notin> set ((x # xs) @ y # ys) \<longrightarrow> ptr \<noteq> Next_of b \<longrightarrow> nxt h' b = nxt h b"
      using r(5) by (auto simp: store_nxt)
    have p: "\<forall>a. ptr = Next_of a \<longrightarrow> head' = head \<and> nxt h' a = hd (merge_nodes s (x # xs) (y # ys) @ [0])"
      unfolding M using r(3,5) 3(7) by (auto simp: store_nxt store_head)
    have q: "ptr = Local_head \<longrightarrow> head' = hd (merge_nodes s (x # xs) (y # ys) @ [0])"
      unfolding M using r(3) by (simp add: store_head)
    show ?thesis
      apply (rule exI[of _ h'], rule exI[of _ head'])
      using m l f p q r(6-9) apply simp
      done
  qed
qed

lemma mergeTwoLists_correct:
  assumes "linked (nxt h) (xs @ [0])" "linked (nxt h) (ys @ [0])" "distinct (xs @ ys)"
    "0 \<notin> set (xs @ ys)"
  shows "\<exists>h'. mergeTwoLists h (hd (xs @ [0])) (hd (ys @ [0]))
            = Some (h', hd (merge_nodes (elem_str h) xs ys @ [0])) \<and>
      linked (nxt h') (merge_nodes (elem_str h) xs ys @ [0]) \<and>
      (\<forall>b. b \<notin> set (xs @ ys) \<longrightarrow> nxt h' b = nxt h b) \<and>
      prv h' = prv h \<and> e_value h' = e_value h \<and> str h' = str h \<and> live h' = live h"
  using merge_from_correct[OF assms, of Local_head "elem_str h" 0]
  by (auto simp: mergeTwoLists_merge_from)

lemma linked_rev_nth: "linked f (rev zs) \<Longrightarrow> Suc i < length zs \<Longrightarrow> f (zs ! Suc i) = zs ! i"
proof -
  assume l: "linked f (rev zs)" and i: "Suc i < length zs"
  let ?n = "length zs"
  have "f (rev zs ! (?n - Suc (Suc i))) = rev zs ! Suc (?n - Suc (Suc i))"
    by (rule linked_nth[OF l]) (use i in simp)
  moreover have "rev zs ! (?n - Suc (Suc i)) = zs ! Suc i"
    using i by (simp add: rev_nth)
  moreover have "rev zs ! Suc (?n - Suc (Suc i)) = zs ! i"
    using i by (simp add: rev_nth Suc_diff_Suc)
  ultimately show ?thesis by simp
qed

lemma linked_snoc_upd:
  assumes "linked f zs" "zs \<noteq> []" "distinct zs"
  shows "linked (f(last zs := v)) (zs @ [v])"
proof -
  have "last zs \<notin> set (butlast zs)" using assms(2,3) by (simp add: last_notin_butlast)
  then have "linked (f(last zs := v)) zs" using assms(1) by (simp add: linked_upd)
  then show ?thesis using assms(2) by (simp add: linked_append)
qed

lemma chain_nth:
  assumes "linked f (xs @ [0])" "i < length xs"
  shows "f ((xs @ [0]) ! i) = (xs @ [0]) ! Suc i"
  using linked_nth[OF assms(1), of i] assms(2) by simp

lemma chain_nth_null:
  assumes "(0::addr) \<notin> set xs" "i \<le> length xs"
  shows "((xs @ [0]) ! i = 0) = (i = length xs)"
proof (cases "i = length xs")
  case True
  then show ?thesis by simp
next
  case False
  then have "i < length xs" using assms(2) by simp
  then have "(xs @ [0]) ! i \<in> set xs" by (simp add: nth_append)
  then show ?thesis using False assms(1) by metis
qed

lemma mergesort_loop_correct:
  assumes "linked (nxt h) (xs @ [0])" "0 \<notin> set xs"
  shows "2 * k \<le> length xs \<Longrightarrow>
    mergesort_loop h ((xs @ [0]) ! (2 * k)) ((xs @ [0]) ! k)
      = Some ((xs @ [0]) ! (2 * (length xs div 2)), (xs @ [0]) ! (length xs div 2))"
proof (induction "length xs - 2 * k" arbitrary: k rule: less_induct)
  case less
  let ?zs = "xs @ [0]"
  show ?case
  proof (cases "2 * k + 2 \<le> length xs")
    case True
    then have f1: "?zs ! (2 * k) \<noteq> 0" and f2: "?zs ! Suc (2 * k) \<noteq> 0"
      using chain_nth_null[OF assms(2), of "2 * k"] chain_nth_null[OF assms(2), of "Suc (2 * k)"]
      by simp_all
    have n1: "nxt h (?zs ! (2 * k)) = ?zs ! Suc (2 * k)"
      and n2: "nxt h (?zs ! Suc (2 * k)) = ?zs ! (2 * Suc k)"
      and n3: "nxt h (?zs ! k) = ?zs ! Suc k"
      using chain_nth[OF assms(1), of "2 * k"] chain_nth[OF assms(1), of "Suc (2 * k)"]
        chain_nth[OF assms(1), of k] True by simp_all
    have "mergesort_loop h (?zs ! (2 * Suc k)) (?zs ! Suc k)
        = Some (?zs ! (2 * (length xs div 2)), ?zs ! (length xs div 2))"
      by (rule less.hyps) (use True in simp_all)
    then show ?thesis
      by (subst mergesort_loop.simps) (simp only: f1 f2 n1 n2 n3 simp_thms if_False)
  next
    case False
    then have "2 * k = length xs \<or> Suc (2 * k) = length xs" using less.prems by arith
    then have c: "?zs ! (2 * k) = 0 \<or> nxt h (?zs ! (2 * k)) = 0"
      and k: "k = length xs div 2"
      using chain_nth_null[OF assms(2), of "2 * k"] chain_nth_null[OF assms(2), of "Suc (2 * k)"]
        chain_nth[OF assms(1), of "2 * k"] by auto
    show ?thesis
      apply (subst mergesort_loop.simps)
      using c k apply auto
      done
  qed
qed

lemma mergesort_unfold:
  assumes "nxt h head \<noteq> 0"
    and "mergesort_loop h head head = Some (fast, slow)"
    and "mergesort (h\<lparr>nxt := (nxt h)(prv h slow := 0)\<rparr>) head = Some (h2, l1)"
    and "mergesort h2 slow = Some (h3, l2)"
  shows "mergesort h head = mergeTwoLists h3 l1 l2"
  by (subst mergesort.simps) (simp add: assms)

lemma mergesort_correct:
  "xs \<noteq> [] \<Longrightarrow> distinct xs \<Longrightarrow> 0 \<notin> set xs \<Longrightarrow> linked (nxt h) (xs @ [0]) \<Longrightarrow>
   linked (prv h) (rev xs) \<Longrightarrow>
   \<exists>h'. mergesort h (hd xs) = Some (h', hd (msort_nodes (elem_str h) xs)) \<and>
        linked (nxt h') (msort_nodes (elem_str h) xs @ [0]) \<and>
        (\<forall>b. b \<notin> set xs \<longrightarrow> nxt h' b = nxt h b) \<and>
        prv h' = prv h \<and> e_value h' = e_value h \<and> str h' = str h \<and> live h' = live h"
proof (induction "length xs" arbitrary: xs h rule: less_induct)
  case less
  let ?n = "length xs" and ?s = "elem_str h"
  show ?case
  proof (cases "?n \<le> 1")
    case True
    then obtain x where xs: "xs = [x]" using less.prems(1) by (cases xs) auto
    have "nxt h x = 0" using less.prems(4) xs by simp
    then have "mergesort h (hd xs) = Some (h, x)"
      unfolding xs by (subst mergesort.simps) simp
    moreover have "msort_nodes ?s xs = [x]" unfolding xs by (subst msort_nodes.simps) simp
    ultimately show ?thesis using less.prems(4) xs by simp
  next
    case False
    let ?m = "?n div 2"
    let ?A = "take ?m xs" and ?B = "drop ?m xs"
    have m: "0 < ?m" "?m < ?n" using False by simp_all
    have AB: "xs = ?A @ ?B" by simp
    have Ane: "?A \<noteq> []" and Bne: "?B \<noteq> []" using m by auto
    have lenA: "length ?A < ?n" and lenB: "length ?B < ?n" using m by simp_all
    have dA: "distinct ?A" and dB: "distinct ?B" and disj: "set ?A \<inter> set ?B = {}"
      using less.prems(2) distinct_append[of ?A ?B] by simp_all
    have zA: "0 \<notin> set ?A" and zB: "0 \<notin> set ?B"
      using less.prems(3) by (auto dest: in_set_takeD in_set_dropD)
    have hdA: "hd ?A = hd xs" using m by (simp add: hd_take)
    have hdB: "hd ?B = xs ! ?m" using m by (simp add: hd_drop_conv_nth)
    have lastA: "last ?A = xs ! (?m - 1)"
      using m Ane by (simp add: last_conv_nth min_def)
    have hd0: "hd xs = (xs @ [0]) ! 0" using less.prems(1) by (cases xs) simp_all
    \<comment> \<open>the first test and the split loop\<close>
    have "nxt h (hd xs) = (xs @ [0]) ! Suc 0"
      using chain_nth[OF less.prems(4), of 0] less.prems(1) hd0 by simp
    moreover have "(xs @ [0]) ! Suc 0 \<noteq> 0"
      using chain_nth_null[OF less.prems(3), of "Suc 0"] False by simp
    ultimately have t: "nxt h (hd xs) \<noteq> 0" by simp
    have "mergesort_loop h ((xs @ [0]) ! (2 * 0)) ((xs @ [0]) ! 0)
        = Some ((xs @ [0]) ! (2 * ?m), (xs @ [0]) ! ?m)"
      by (rule mergesort_loop_correct[OF less.prems(4,3)]) simp
    then have loop: "mergesort_loop h (hd xs) (hd xs) = Some ((xs @ [0]) ! (2 * ?m), xs ! ?m)"
      using hd0 m by (simp add: nth_append)
    have pm: "prv h (xs ! ?m) = xs ! (?m - 1)"
      using linked_rev_nth[OF less.prems(5), of "?m - 1"] m by simp
    \<comment> \<open>cutting the chain\<close>
    let ?h1 = "h\<lparr>nxt := (nxt h)(prv h (xs ! ?m) := 0)\<rparr>"
    have eqn: "?A @ ?B @ [0] = xs @ [0]" by (metis append_assoc append_take_drop_id)
    have "linked (nxt h) (?A @ ?B @ [0])" unfolding eqn by (rule less.prems(4))
    from linked_appendD[OF this]
    have lA: "linked (nxt h) ?A" and lB: "linked (nxt h) (?B @ [0])" by simp_all
    have c1A: "linked (nxt ?h1) (?A @ [0])"
      using linked_snoc_upd[OF lA Ane dA, of 0] by (simp add: pm lastA)
    have "xs ! (?m - 1) \<in> set ?A" using lastA Ane last_in_set by metis
    then have nB: "xs ! (?m - 1) \<notin> set ?B" using disj by auto
    have c1B: "linked (nxt ?h1) (?B @ [0])"
      using lB nB by (simp add: pm linked_upd)
    have eqp: "rev ?B @ rev ?A = rev xs" by (metis rev_append append_take_drop_id)
    have "linked (prv h) (rev ?B @ rev ?A)" unfolding eqp by (rule less.prems(5))
    from linked_appendD[OF this]
    have pA: "linked (prv h) (rev ?A)" and pB: "linked (prv h) (rev ?B)" by simp_all
    have e1: "elem_str ?h1 = ?s" by (rule elem_str_frame) simp_all
    \<comment> \<open>the left half\<close>
    have "linked (prv ?h1) (rev ?A)" using pA by simp
    from less.hyps[OF lenA Ane dA zA c1A this] obtain h2 where
      h2: "mergesort ?h1 (hd xs) = Some (h2, hd (msort_nodes ?s ?A))"
        "linked (nxt h2) (msort_nodes ?s ?A @ [0])"
        "\<forall>b. b \<notin> set ?A \<longrightarrow> nxt h2 b = nxt ?h1 b"
        "prv h2 = prv h" "e_value h2 = e_value h" "str h2 = str h" "live h2 = live h"
      unfolding e1 hdA by auto
    have e2: "elem_str h2 = ?s" by (rule elem_str_frame) (simp_all add: h2)
    \<comment> \<open>the right half\<close>
    have "linked (nxt h2) (?B @ [0]) = linked (nxt ?h1) (?B @ [0])"
      by (rule linked_cong) (use h2(3) disj in auto)
    then have c2B: "linked (nxt h2) (?B @ [0])" using c1B by simp
    have "linked (prv h2) (rev ?B)" using pB h2(4) by simp
    from less.hyps[OF lenB Bne dB zB c2B this] obtain h3 where
      h3: "mergesort h2 (xs ! ?m) = Some (h3, hd (msort_nodes ?s ?B))"
        "linked (nxt h3) (msort_nodes ?s ?B @ [0])"
        "\<forall>b. b \<notin> set ?B \<longrightarrow> nxt h3 b = nxt h2 b"
        "prv h3 = prv h" "e_value h3 = e_value h" "str h3 = str h" "live h3 = live h"
      unfolding e2 hdB using h2(4-7) by auto
    have e3: "elem_str h3 = ?s" by (rule elem_str_frame) (simp_all add: h3)
    \<comment> \<open>the merge\<close>
    let ?SA = "msort_nodes ?s ?A" and ?SB = "msort_nodes ?s ?B"
    have "linked (nxt h3) (?SA @ [0]) = linked (nxt h2) (?SA @ [0])"
      by (rule linked_cong) (use h3(3) disj in \<open>auto simp: set_msort_nodes\<close>)
    then have c3A: "linked (nxt h3) (?SA @ [0])" using h2(2) by simp
    have d3: "distinct (?SA @ ?SB)" "0 \<notin> set (?SA @ ?SB)"
      using dA dB disj zA zB by (simp_all add: distinct_msort_nodes set_msort_nodes)
    have SAne: "?SA \<noteq> []" "?SB \<noteq> []"
      using Ane Bne length_msort_nodes[of ?s ?A] length_msort_nodes[of ?s ?B]
      by (metis length_0_conv)+
    have M: "msort_nodes ?s xs = merge_nodes ?s ?SA ?SB"
      using False by (subst msort_nodes.simps) simp
    have Mne: "msort_nodes ?s xs \<noteq> []"
      using less.prems(1) length_msort_nodes[of ?s xs] by (metis length_0_conv)
    from mergeTwoLists_correct[OF c3A h3(2) d3] obtain h4 where
      h4: "mergeTwoLists h3 (hd ?SA) (hd ?SB) = Some (h4, hd (msort_nodes ?s xs))"
        "linked (nxt h4) (msort_nodes ?s xs @ [0])"
        "\<forall>b. b \<notin> set (?SA @ ?SB) \<longrightarrow> nxt h4 b = nxt h3 b"
        "prv h4 = prv h" "e_value h4 = e_value h" "str h4 = str h" "live h4 = live h"
      unfolding e3 M[symmetric] using SAne Mne h3(4-7) by auto
    have "mergesort h (hd xs) = mergeTwoLists h3 (hd ?SA) (hd ?SB)"
      by (rule mergesort_unfold[OF t loop h2(1) h3(1)])
    then have r: "mergesort h (hd xs) = Some (h4, hd (msort_nodes ?s xs))" using h4(1) by simp
    have f: "\<forall>b. b \<notin> set xs \<longrightarrow> nxt h4 b = nxt h b"
    proof (intro allI impI)
      fix b assume b: "b \<notin> set xs"
      then have bA: "b \<notin> set ?A" and bB: "b \<notin> set ?B"
        by (auto dest: in_set_takeD in_set_dropD)
      have "xs ! (?m - 1) \<in> set xs" using m by simp
      then have "b \<noteq> xs ! (?m - 1)" using b by metis
      then have "nxt ?h1 b = nxt h b" by (simp add: pm)
      then show "nxt h4 b = nxt h b"
        using h4(3) h3(3) h2(3) bA bB by (simp add: set_msort_nodes)
    qed
    show ?thesis
      apply (rule exI[of _ h4])
      using r h4(2,4-7) f apply simp
      done
  qed
qed

lemma q_sort_loop_correct:
  "linked (nxt h) (tmp # ys @ [0]) \<Longrightarrow> distinct (tmp # ys) \<Longrightarrow> 0 \<notin> set ys \<Longrightarrow>
   \<exists>h'. q_sort_loop h tmp = Some (h', last (tmp # ys)) \<and> nxt h' = nxt h \<and>
        linked (prv h') (rev ys @ [tmp]) \<and> (\<forall>a. a \<notin> set ys \<longrightarrow> prv h' a = prv h a) \<and>
        e_value h' = e_value h \<and> str h' = str h \<and> live h' = live h"
proof (induction ys arbitrary: h tmp)
  case Nil
  then have "nxt h tmp = 0" by simp
  then have "q_sort_loop h tmp = Some (h, tmp)" by (subst q_sort_loop.simps) simp
  then show ?case by simp
next
  case (Cons y ys)
  let ?h1 = "h\<lparr>prv := (prv h)(y := tmp)\<rparr>"
  have n: "nxt h tmp = y" "y \<noteq> 0" using Cons.prems by auto
  have l: "linked (nxt ?h1) (y # ys @ [0])" using Cons.prems(1) by simp
  have d: "distinct (y # ys)" "0 \<notin> set ys" using Cons.prems by auto
  from Cons.IH[OF l d] obtain h' where
    h': "q_sort_loop ?h1 y = Some (h', last (y # ys))" "nxt h' = nxt h"
      "linked (prv h') (rev ys @ [y])" "\<forall>a. a \<notin> set ys \<longrightarrow> prv h' a = prv ?h1 a"
      "e_value h' = e_value h" "str h' = str h" "live h' = live h"
    by auto
  have "y \<notin> set ys" using Cons.prems(2) by simp
  then have py: "prv h' y = tmp" using h'(4) by simp
  have "linked (prv h') ((rev ys @ [y]) @ [tmp])"
    using h'(3) py linked_append[of "rev ys @ [y]" "[tmp]" "prv h'"] by simp
  then have lp: "linked (prv h') (rev (y # ys) @ [tmp])" by simp
  have f: "\<forall>a. a \<notin> set (y # ys) \<longrightarrow> prv h' a = prv h a" using h'(4) by simp
  have "q_sort_loop h tmp = Some (h', last (tmp # y # ys))"
    by (subst q_sort_loop.simps) (simp add: n Let_def h'(1))
  then show ?case using h'(2,5,6,7) lp f by blast
qed

lemma q_sort_unfold:
  assumes "head \<noteq> 0" "\<not> list_empty h head" "\<not> list_is_singular h head"
    and "mergesort (h\<lparr>nxt := (nxt h)(prv h head := 0, head := 0)\<rparr>) (nxt h head) = Some (h3, node)"
    and "q_sort_loop (h3\<lparr>nxt := (nxt h3)(head := node)\<rparr>) head = Some (h5, tmp)"
  shows "q_sort h head = Some (h5\<lparr>nxt := (nxt h5)(tmp := head), prv := (prv h5)(head := tmp)\<rparr>)"
  using assms by (simp add: q_sort_def)

lemma q_sort_correct:
  assumes "queue h head xs"
  shows "\<exists>h'. q_sort h head = Some h' \<and> queue h' head (msort_nodes (elem_str h) xs) \<and>
           e_value h' = e_value h \<and> str h' = str h \<and> live h' = live h"
proof (cases "list_empty h head \<or> list_is_singular h head")
  case True
  then have "length xs \<le> 1"
    using queue_empty_iff[OF assms] queue_singular_iff[OF assms] by auto
  then have "msort_nodes (elem_str h) xs = xs" by (subst msort_nodes.simps) simp
  then show ?thesis using True assms by (simp add: q_sort_def)
next
  case False
  let ?s = "elem_str h"
  let ?M = "msort_nodes ?s xs"
  have ne: "xs \<noteq> []" and n1: "length xs \<noteq> 1"
    using False queue_empty_iff[OF assms] queue_singular_iff[OF assms] by auto
  have "0 < length xs" using ne by simp
  then have len: "2 \<le> length xs" using n1 by arith
  have h0: "head \<noteq> 0" and z: "0 \<notin> set xs" and d: "distinct xs" and hx: "head \<notin> set xs"
    using assms by (simp_all add: queue_def)
  have nh: "nxt h head = hd xs" using queue_nxt_head[OF assms] ne by simp
  have ph: "prv h head = last xs" using queue_prv_head[OF assms] ne by simp
  \<comment> \<open>breaking the ring\<close>
  let ?h2 = "h\<lparr>nxt := (nxt h)(prv h head := 0, head := 0)\<rparr>"
  have "linked (nxt h) ([head] @ xs @ [head])" using assms by (simp add: queue_def)
  from linked_appendD[OF this] have "linked (nxt h) (xs @ [head])" by simp
  from linked_appendD[OF this] have lx: "linked (nxt h) xs" by simp
  have "linked ((nxt h)(last xs := 0)) (xs @ [0])" by (rule linked_snoc_upd[OF lx ne d])
  then have c2: "linked (nxt ?h2) (xs @ [0])" using hx by (simp add: ph linked_upd)
  have "linked (prv h) ([head] @ rev xs @ [head])" using assms by (simp add: queue_def)
  from linked_appendD[OF this] have "linked (prv h) (rev xs @ [head])" by simp
  from linked_appendD[OF this] have "linked (prv h) (rev xs)" by simp
  then have p2: "linked (prv ?h2) (rev xs)" by simp
  have e2: "elem_str ?h2 = ?s" by (rule elem_str_frame) simp_all
  \<comment> \<open>sorting the chain\<close>
  from mergesort_correct[OF ne d z c2 p2] obtain h3 where
    h3: "mergesort ?h2 (hd xs) = Some (h3, hd ?M)" "linked (nxt h3) (?M @ [0])"
      "e_value h3 = e_value h" "str h3 = str h" "live h3 = live h"
    unfolding e2 by auto
  have Mne: "?M \<noteq> []" using ne length_msort_nodes[of ?s xs] by (metis length_0_conv)
  have dM: "distinct (head # ?M)" "0 \<notin> set ?M" "head \<notin> set ?M"
    using d z hx by (simp_all add: distinct_msort_nodes set_msort_nodes)
  \<comment> \<open>rebuilding the back links\<close>
  let ?h4 = "h3\<lparr>nxt := (nxt h3)(head := hd ?M)\<rparr>"
  have c4: "linked (nxt ?h4) (head # ?M @ [0])"
    using h3(2) dM(3) Mne by (simp add: linked_Cons linked_upd)
  from q_sort_loop_correct[OF c4 dM(1,2)] obtain h5 where
    h5: "q_sort_loop ?h4 head = Some (h5, last ?M)" "nxt h5 = nxt ?h4"
      "linked (prv h5) (rev ?M @ [head])"
      "e_value h5 = e_value h" "str h5 = str h" "live h5 = live h"
    using Mne h3(3-5) by auto
  \<comment> \<open>closing the ring\<close>
  let ?h7 = "h5\<lparr>nxt := (nxt h5)(last ?M := head), prv := (prv h5)(head := last ?M)\<rparr>"
  have r: "q_sort h head = Some ?h7"
    by (rule q_sort_unfold[OF h0 _ _ _ h5(1)]) (use False h3(1) nh in simp_all)
  have "linked (nxt ?h4) ((head # ?M) @ [0])" using c4 by simp
  from linked_appendD[OF this] have "linked (nxt ?h4) (head # ?M)" by simp
  from linked_snoc_upd[OF this _ dM(1), of head]
  have n7: "linked (nxt ?h7) (head # ?M @ [head])" using Mne by (simp add: h5(2))
  have "linked ((prv h5)(head := last ?M)) (rev ?M @ [head])"
    using h5(3) dM(3) by (simp add: linked_upd)
  then have p7: "linked (prv ?h7) (head # rev ?M @ [head])"
    using Mne by (simp add: linked_Cons hd_rev)
  have "queue ?h7 head ?M" using h0 dM n7 p7 by (simp add: queue_def)
  then show ?thesis using r h5(4-6) by simp
qed

lemma q_sort_NULL: "q_sort h 0 = Some h"
  by (simp add: q_sort_def)

lemma ascending_msort_nodes: "ascending (map s (msort_nodes s xs))"
  using sorted_msort_nodes[of s xs] by (simp add: ascending_key comp_def)

text \<open>
  Claim C1. On every well-formed queue \<open>q_sort\<close> returns; the nodes afterwards are a
  permutation of the nodes before, their strings are ascending under \<open>strcmp\<close> and are
  the same multiset of strings; no block is allocated or freed and no \<open>value\<close> pointer or
  string changes: only \<open>next\<close> and \<open>prev\<close> links are rewritten.
\<close>

theorem q_sort_sorted_permutation:
  assumes "queue h head xs"
  shows "\<exists>h' ys. q_sort h head = Some h' \<and> queue h' head ys \<and> mset ys = mset xs \<and>
           ascending (map (elem_str h') ys) \<and>
           mset (map (elem_str h') ys) = mset (map (elem_str h) xs) \<and>
           live h' = live h \<and> e_value h' = e_value h \<and> str h' = str h"
proof -
  from q_sort_correct[OF assms] obtain h' where
    h': "q_sort h head = Some h'" "queue h' head (msort_nodes (elem_str h) xs)"
      "e_value h' = e_value h" "str h' = str h" "live h' = live h" by blast
  have e: "elem_str h' = elem_str h" by (rule elem_str_frame; fact)
  have m: "mset (msort_nodes (elem_str h) xs) = mset xs" by (rule mset_msort_nodes)
  have a: "ascending (map (elem_str h') (msort_nodes (elem_str h) xs))"
    unfolding e by (rule ascending_msort_nodes)
  have ms: "mset (map (elem_str h') (msort_nodes (elem_str h) xs)) = mset (map (elem_str h) xs)"
    unfolding e using m by (metis mset_map)
  show ?thesis
    by (rule exI[of _ h'], rule exI[of _ "msort_nodes (elem_str h) xs"], intro conjI)
      (fact h' m a ms)+
qed

theorem q_sort_sorted_permutation_witness:
  "queue heap3 1 [2, 3, 4] \<and>
   (\<exists>h' ys. q_sort heap3 1 = Some h' \<and> queue h' 1 ys \<and> mset ys = mset [2, 3, 4] \<and>
      ascending (map (elem_str h') ys) \<and>
      mset (map (elem_str h') ys) = mset [''b'', ''a'', ''b''] \<and> live h' = live heap3)"
proof -
  have q: "queue heap3 1 [2, 3, 4]" by (simp add: queue_def heap3_def)
  have m: "map (elem_str heap3) [2, 3, 4] = [''b'', ''a'', ''b'']"
    by (simp add: elem_str_def heap3_def)
  from q_sort_sorted_permutation[OF q] obtain h' ys where
    "q_sort heap3 1 = Some h'" "queue h' 1 ys" "mset ys = mset [2, 3, 4]"
    "ascending (map (elem_str h') ys)"
    "mset (map (elem_str h') ys) = mset (map (elem_str heap3) [2, 3, 4])" "live h' = live heap3"
    by blast
  then show ?thesis using q unfolding m by blast
qed

text \<open>
  Claim C3, as amended. \<open>q_sort\<close> leaves the strings ascending, but it is not stable:
  the merge takes the right-hand node on a tie, and the nodes whose strings compare
  equal to any given string come out in the reverse of the order they had before.
\<close>

theorem q_sort_reverses_equal:
  assumes "queue h head xs"
  shows "\<exists>h' ys. q_sort h head = Some h' \<and> queue h' head ys \<and>
           ascending (map (elem_str h') ys) \<and>
           (\<forall>t. filter (\<lambda>b. strcmp (elem_str h b) t = 0) ys
                = rev (filter (\<lambda>b. strcmp (elem_str h b) t = 0) xs))"
proof -
  from q_sort_correct[OF assms] obtain h' where
    h': "q_sort h head = Some h'" "queue h' head (msort_nodes (elem_str h) xs)"
      "e_value h' = e_value h" "str h' = str h" "live h' = live h" by blast
  have e: "elem_str h' = elem_str h" by (rule elem_str_frame; fact)
  have a: "ascending (map (elem_str h') (msort_nodes (elem_str h) xs))"
    unfolding e by (rule ascending_msort_nodes)
  have f: "\<forall>t. filter (\<lambda>b. strcmp (elem_str h b) t = 0) (msort_nodes (elem_str h) xs)
                = rev (filter (\<lambda>b. strcmp (elem_str h b) t = 0) xs)"
    using filter_msort_nodes[of "elem_str h" _ xs] by (simp add: strcmp_eq)
  show ?thesis
    by (rule exI[of _ h'], rule exI[of _ "msort_nodes (elem_str h) xs"], intro conjI)
      (fact h' a f)+
qed

theorem q_sort_reverses_equal_witness:
  "queue heap3 1 [2, 3, 4] \<and>
   (\<exists>h' ys. q_sort heap3 1 = Some h' \<and> queue h' 1 ys \<and>
      filter (\<lambda>b. strcmp (elem_str heap3 b) ''b'' = 0) ys = [4, 2])"
proof -
  have q: "queue heap3 1 [2, 3, 4]" by (simp add: queue_def heap3_def)
  have f: "rev (filter (\<lambda>b. strcmp (elem_str heap3 b) ''b'' = 0) [2, 3, 4]) = [4, 2]"
    by (simp add: elem_str_def heap3_def)
  from q_sort_reverses_equal[OF q] obtain h' ys where
    "q_sort heap3 1 = Some h'" "queue h' 1 ys"
    "filter (\<lambda>b. strcmp (elem_str heap3 b) ''b'' = 0) ys
       = rev (filter (\<lambda>b. strcmp (elem_str heap3 b) ''b'' = 0) [2, 3, 4])"
    by blast
  then show ?thesis using q unfolding f by blast
qed

lemma msort_nodes_heap3: "msort_nodes (elem_str heap3) [2, 3, 4] = [3, 4, 2]"
  by (simp add: msort_nodes.simps elem_str_def heap3_def)

text \<open>
  Claim C3 as the spec states it fails: in the queue \<open>["b","a","b"]\<close> the node at 2
  precedes the node at 4 and both hold \<open>"b"\<close>; after \<open>q_sort\<close> the node at 4 precedes
  the node at 2.
\<close>

theorem q_sort_stable_counterexample:
  "q_nodes heap3 1 = Some [2, 3, 4] \<and> elem_str heap3 2 = ''b'' \<and> elem_str heap3 4 = ''b'' \<and>
   nodes_after_sort heap3 1 = Some [3, 4, 2]"
proof -
  from q_sort_correct[OF queue_heap3] obtain h' where
    h': "q_sort heap3 1 = Some h'" "queue h' 1 [3, 4, 2]"
    unfolding msort_nodes_heap3 by blast
  have "nodes_after_sort heap3 1 = Some [3, 4, 2]"
    using h'(1) q_nodes_correct[OF h'(2)] by (simp add: nodes_after_sort_def)
  moreover have "elem_str heap3 2 = ''b''" "elem_str heap3 4 = ''b''"
    by (simp_all add: elem_str_def heap3_def)
  ultimately show ?thesis using q_nodes_correct[OF queue_heap3] by simp
qed

lemma linked_funpow:
  "linked f zs \<Longrightarrow> i < length zs \<Longrightarrow> (f ^^ i) (hd zs) = zs ! i"
proof (induction i)
  case 0
  then show ?case by (cases zs) auto
next
  case (Suc i)
  then have "(f ^^ i) (hd zs) = zs ! i" by simp
  then show ?case using linked_nth[OF Suc.prems(1), of i] Suc.prems(2) by simp
qed

lemma queue_ring:
  assumes "queue h head xs"
  shows "ring_invariant h head (length xs)"
proof -
  let ?zs = "head # xs @ [head]" and ?n = "length xs"
  have ln: "linked (nxt h) ?zs" using assms by (simp add: queue_def)
  have "linked (prv h) (head # rev xs @ [head])" using assms by (simp add: queue_def)
  then have lp: "linked (prv h) (rev ?zs)" by simp
  have walk: "(nxt h ^^ i) head = ?zs ! i" if "i \<le> Suc ?n" for i
    using linked_funpow[OF ln, of i] that by simp
  have bwalk: "(prv h ^^ i) head = rev ?zs ! i" if "i \<le> Suc ?n" for i
    using linked_funpow[OF lp, of i] that by simp
  have nx: "nxt h (?zs ! i) = ?zs ! Suc i" if "i \<le> ?n" for i
    using linked_nth[OF ln, of i] that by simp
  have pv: "prv h (?zs ! Suc i) = ?zs ! i" if "i \<le> ?n" for i
    using linked_rev_nth[OF lp, of i] that by simp
  have last: "?zs ! Suc ?n = head" by (simp add: nth_append)
  have a: "prv h (nxt h ((nxt h ^^ i) head)) = (nxt h ^^ i) head \<and>
           nxt h (prv h ((nxt h ^^ i) head)) = (nxt h ^^ i) head" if i: "i \<le> ?n" for i
  proof
    show "prv h (nxt h ((nxt h ^^ i) head)) = (nxt h ^^ i) head"
      using walk[of i] nx[OF i] pv[OF i] i by simp
    show "nxt h (prv h ((nxt h ^^ i) head)) = (nxt h ^^ i) head"
    proof (cases i)
      case 0
      have "prv h head = ?zs ! ?n" using pv[of ?n] last by simp
      then show ?thesis using 0 nx[of ?n] last by simp
    next
      case (Suc j)
      then have j: "j \<le> ?n" using i by simp
      show ?thesis using walk[of i] i Suc pv[OF j] nx[OF j] by simp
    qed
  qed
  have b: "(nxt h ^^ Suc ?n) head = head" using walk[of "Suc ?n"] last by simp
  have "rev ?zs ! Suc ?n = head" by (simp add: nth_append)
  then have c: "(prv h ^^ Suc ?n) head = head" using bwalk[of "Suc ?n"] by simp
  show ?thesis unfolding ring_invariant_def using a b c by blast
qed

lemma ring_afterI: "queue h head ys \<Longrightarrow> ring_after h head ys"
  by (simp add: ring_after_def queue_ring q_size_correct)

lemma q_insert_head_queue:
  assumes "queue h head xs" "e = 0 \<or> e \<notin> set (head # xs)"
  shows "queue (fst (q_insert_head h head s e v)) head
           (if snd (q_insert_head h head s e v) then e # xs else xs)"
proof (cases "snd (q_insert_head h head s e v)")
  case True
  then have "e \<noteq> 0" "v \<noteq> 0" using q_insert_head_false_iff[of h head s e v] by auto
  then show ?thesis using q_insert_head_ok[OF assms(1), of e v s] assms(2) True by auto
next
  case False
  have "queue (fst (q_insert_head h head s e v)) head xs = queue h head xs"
    by (rule queue_frame) (simp_all add: q_insert_head_fail[OF False])
  then show ?thesis using False assms(1) by simp
qed

lemma q_insert_tail_queue:
  assumes "queue h head xs" "e = 0 \<or> e \<notin> set (head # xs)"
  shows "queue (fst (q_insert_tail h head s e v)) head
           (if snd (q_insert_tail h head s e v) then xs @ [e] else xs)"
proof (cases "snd (q_insert_tail h head s e v)")
  case True
  then have "e \<noteq> 0" "v \<noteq> 0" using q_insert_tail_false_iff[of h head s e v] by auto
  then show ?thesis using q_insert_tail_ok[OF assms(1), of e v s] assms(2) True by auto
next
  case False
  have "queue (fst (q_insert_tail h head s e v)) head xs = queue h head xs"
    by (rule queue_frame) (simp_all add: q_insert_tail_fail[OF False])
  then show ?thesis using False assms(1) by simp
qed

lemma q_delete_mid_queue:
  assumes "queue h head xs"
  shows "\<exists>h' r. q_delete_mid h head = Some (h', r) \<and>
           queue h' head (if xs = [] then xs
                          else take (length xs div 2) xs @ drop (Suc (length xs div 2)) xs)"
proof (cases "xs = []")
  case True
  then show ?thesis using assms queue_empty_iff[OF assms] by (auto simp: q_delete_mid_def)
next
  case False
  then show ?thesis using q_delete_mid_correct[OF assms False] by auto
qed

text \<open>
  Claim C2. Every public operation, started on a well-formed queue, returns with a
  well-formed queue: for every node \<open>n\<close> left in the list \<open>n.next.prev = n\<close> and
  \<open>n.prev.next = n\<close>, walking \<open>next\<close> (or \<open>prev\<close>) for size steps and once more comes
  back to the sentinel, and \<open>q_size\<close> agrees. \<open>q_sort\<close>, which cuts the ring into a
  \<open>NULL\<close>-terminated chain, has rebuilt every link when it returns. (The node handed
  to an insertion is \<open>NULL\<close> or a block that is not in the queue; \<open>q_size\<close> itself only
  reads the heap.) A removal whose copy overruns the output buffer does not return at
  all; whenever a removal returns the ring is well formed, and it does return when the
  queue is empty, when \<open>sp\<close> is \<open>NULL\<close>, and when \<open>bufsize\<close> is not 0 and the buffer
  holds \<open>bufsize\<close> bytes.
\<close>

theorem operations_preserve_ring:
  assumes "queue h head xs"
  shows
    "(e = 0 \<or> e \<notin> set (head # xs) \<longrightarrow>
        ring_after (fst (q_insert_head h head s e v)) head
          (if snd (q_insert_head h head s e v) then e # xs else xs) \<and>
        ring_after (fst (q_insert_tail h head s e v)) head
          (if snd (q_insert_tail h head s e v) then xs @ [e] else xs)) \<and>
     (\<forall>r. q_remove_head h head sp bufsize = Returned r \<longrightarrow> ring_after (fst r) head (tl xs)) \<and>
     (\<forall>r. q_remove_tail h head sp bufsize = Returned r \<longrightarrow> ring_after (fst r) head (butlast xs)) \<and>
     (xs = [] \<or> copy_fits sp bufsize \<longrightarrow>
        (\<exists>r. q_remove_head h head sp bufsize = Returned r) \<and>
        (\<exists>r. q_remove_tail h head sp bufsize = Returned r)) \<and>
     ring_after h head xs \<and>
     (\<exists>h' r. q_delete_mid h head = Some (h', r) \<and>
        ring_after h' head (if xs = [] then xs
                            else take (length xs div 2) xs @ drop (Suc (length xs div 2)) xs)) \<and>
     (\<exists>h'. q_delete_dup h head = Some (h', True) \<and> ring_after h' head (survivors (elem_str h) xs)) \<and>
     (\<exists>h'. q_swap h head = Some h' \<and> ring_after h' head (swap_pairs xs)) \<and>
     (\<exists>h'. q_reverse h head = Some h' \<and> ring_after h' head (rev xs)) \<and>
     (\<exists>h'. q_sort h head = Some h' \<and> ring_after h' head (msort_nodes (elem_str h) xs))"
proof (intro conjI impI)
  assume e: "e = 0 \<or> e \<notin> set (head # xs)"
  show "ring_after (fst (q_insert_head h head s e v)) head
          (if snd (q_insert_head h head s e v) then e # xs else xs)"
    by (rule ring_afterI, rule q_insert_head_queue[OF assms e])
  show "ring_after (fst (q_insert_tail h head s e v)) head
          (if snd (q_insert_tail h head s e v) then xs @ [e] else xs)"
    by (rule ring_afterI, rule q_insert_tail_queue[OF assms e])
next
  show "\<forall>r. q_remove_head h head sp bufsize = Returned r \<longrightarrow> ring_after (fst r) head (tl xs)"
    using q_remove_head_Returned[OF assms] ring_afterI by blast
  show "\<forall>r. q_remove_tail h head sp bufsize = Returned r \<longrightarrow> ring_after (fst r) head (butlast xs)"
    using q_remove_tail_Returned[OF assms] ring_afterI by blast
next
  assume f: "xs = [] \<or> copy_fits sp bufsize"
  show "\<exists>r. q_remove_head h head sp bufsize = Returned r"
    by (rule q_remove_head_returns[OF assms f])
  show "\<exists>r. q_remove_tail h head sp bufsize = Returned r"
    by (rule q_remove_tail_returns[OF assms f])
next
  show "ring_after h head xs" by (rule ring_afterI, rule assms)
  show "\<exists>h' r. q_delete_mid h head = Some (h', r) \<and>
        ring_after h' head (if xs = [] then xs
                            else take (length xs div 2) xs @ drop (Suc (length xs div 2)) xs)"
    using q_delete_mid_queue[OF assms] ring_afterI by blast
  show "\<exists>h'. q_delete_dup h head = Some (h', True) \<and> ring_after h' head (survivors (elem_str h) xs)"
    using q_delete_dup_correct[OF assms] ring_afterI unfolding dup_pass_survivors by blast
  show "\<exists>h'. q_swap h head = Some h' \<and> ring_after h' head (swap_pairs xs)"
    using q_swap_correct[OF assms] ring_afterI by blast
  show "\<exists>h'. q_reverse h head = Some h' \<and> ring_after h' head (rev xs)"
    using q_reverse_correct[OF assms] ring_afterI by blast
  show "\<exists>h'. q_sort h head = Some h' \<and> ring_after h' head (msort_nodes (elem_str h) xs)"
    using q_sort_correct[OF assms] ring_afterI by blast
qed

theorem operations_preserve_ring_witness:
  "queue heap3 1 [2, 3, 4] \<and> (9 = (0::addr) \<or> 9 \<notin> set [1, 2, 3, 4 :: addr]) \<and>
   copy_fits (Some ''xxxx'') 2 \<and>
   ring_after (fst (q_insert_head heap3 1 ''z'' 9 19)) 1 [9, 2, 3, 4] \<and>
   ring_after (fst (q_insert_tail heap3 1 ''z'' 9 19)) 1 [2, 3, 4, 9] \<and>
   (\<exists>r. q_remove_head heap3 1 (Some ''xxxx'') 2 = Returned r \<and> ring_after (fst r) 1 [3, 4]) \<and>
   (\<exists>r. q_remove_tail heap3 1 (Some ''xxxx'') 2 = Returned r \<and> ring_after (fst r) 1 [2, 3]) \<and>
   (\<exists>h' r. q_delete_mid heap3 1 = Some (h', r) \<and> ring_after h' 1 [2, 4]) \<and>
   (\<exists>h'. q_delete_dup heap3 1 = Some (h', True) \<and> ring_after h' 1 [2, 3, 4]) \<and>
   (\<exists>h'. q_swap heap3 1 = Some h' \<and> ring_after h' 1 [3, 2, 4]) \<and>
   (\<exists>h'. q_reverse heap3 1 = Some h' \<and> ring_after h' 1 [4, 3, 2]) \<and>
   (\<exists>h'. q_sort heap3 1 = Some h' \<and> ring_after h' 1 [3, 4, 2])"
proof -
  have q: "queue heap3 1 [2, 3, 4]" by (simp add: queue_def heap3_def)
  have e: "9 = (0::addr) \<or> 9 \<notin> set [1, 2, 3, 4 :: addr]" by simp
  have f: "copy_fits (Some ''xxxx'') 2" by (simp add: copy_fits_def)
  have i: "snd (q_insert_head heap3 1 ''z'' 9 19)" "snd (q_insert_tail heap3 1 ''z'' 9 19)"
    by (simp_all add: q_insert_head_def q_insert_tail_def Let_def strdup_def)
  note t = operations_preserve_ring[OF q, of 9 "''z''" 19 "Some ''xxxx''" 2]
  note t1 = t[THEN conjunct1]
  note t2 = t[THEN conjunct2, THEN conjunct1]
  note t3 = t[THEN conjunct2, THEN conjunct2, THEN conjunct1]
  note t4 = t[THEN conjunct2, THEN conjunct2, THEN conjunct2, THEN conjunct1]
  note t5 = t[THEN conjunct2, THEN conjunct2, THEN conjunct2, THEN conjunct2, THEN conjunct2]
  have ins: "ring_after (fst (q_insert_head heap3 1 ''z'' 9 19)) 1 [9, 2, 3, 4]"
    "ring_after (fst (q_insert_tail heap3 1 ''z'' 9 19)) 1 [2, 3, 4, 9]"
    using t1 e by (simp_all add: i)
  have rh: "\<exists>r. q_remove_head heap3 1 (Some ''xxxx'') 2 = Returned r \<and> ring_after (fst r) 1 [3, 4]"
    using t2 t4 f by auto
  have rt: "\<exists>r. q_remove_tail heap3 1 (Some ''xxxx'') 2 = Returned r \<and> ring_after (fst r) 1 [2, 3]"
    using t3 t4 f by auto
  have rest: "(\<exists>h' r. q_delete_mid heap3 1 = Some (h', r) \<and> ring_after h' 1 [2, 4]) \<and>
   (\<exists>h'. q_delete_dup heap3 1 = Some (h', True) \<and> ring_after h' 1 [2, 3, 4]) \<and>
   (\<exists>h'. q_swap heap3 1 = Some h' \<and> ring_after h' 1 [3, 2, 4]) \<and>
   (\<exists>h'. q_reverse heap3 1 = Some h' \<and> ring_after h' 1 [4, 3, 2]) \<and>
   (\<exists>h'. q_sort heap3 1 = Some h' \<and> ring_after h' 1 [3, 4, 2])"
    using t5 unfolding survivors_bab msort_nodes_heap3 by simp
  note r1 = rest[THEN conjunct1]
  note r2 = rest[THEN conjunct2, THEN conjunct1]
  note r3 = rest[THEN conjunct2, THEN conjunct2, THEN conjunct1]
  note r4 = rest[THEN conjunct2, THEN conjunct2, THEN conjunct2, THEN conjunct1]
  note r5 = rest[THEN conjunct2, THEN conjunct2, THEN conjunct2, THEN conjunct2]
  show ?thesis by (intro conjI) (fact q e f ins rh rt r1 r2 r3 r4 r5)+
qed

end
